theory Spec2Isabelle
  imports Main "HOL-Library.List_Lexorder" "HOL-Library.Char_ord"
begin

section \<open>Data model of the default bundler\<close>

text \<open>
  The planner \<open>createIdealGraph\<close> of \<open>DefaultBundler.js\<close>, embedded as HOL functions.
  Every exception of the source (\<open>invariant\<close>, \<open>nullthrows\<close>, a property read on
  \<open>undefined\<close>, a call of an undeclared function) is a value \<open>Inl e\<close>.
\<close>

datatype error = InvariantViolation | NullthrowsError | TypeError | ReferenceError

datatype BundleBehavior = Inline | Isolated

datatype DependencyPriority = Sync | Parallel | Lazy

type_synonym Target = string
type_synonym NodeId = nat
type_synonym AssetId = string

record Environment =
  env_context :: string
  env_isIsolated :: bool

record Asset =
  asset_id :: AssetId
  asset_type :: string
  asset_env :: Environment
  asset_bundleBehavior :: "BundleBehavior option"
  stats_size :: nat

record Dependency =
  dep_id :: string
  dep_priority :: DependencyPriority
  dep_isEntry :: bool
  dep_target :: "Target option"
  dep_bundleBehavior :: "BundleBehavior option"
  dep_needsStableName :: bool

text \<open>The type \<open>Bundle\<close> of the source; \<open>assets\<close> is a JavaScript \<open>Set\<close>, kept as the list of
  its members in insertion order.\<close>

record Bundle =
  assets :: "Asset list"
  internalizedAssetIds :: "AssetId list"
  bundleBehavior :: "BundleBehavior option"
  needsStableName :: bool
  bundle_size :: nat
  sourceBundles :: "NodeId list"
  target :: Target
  bundle_env :: Environment
  bundle_type :: string

subsection \<open>Errors\<close>

definition bindE :: "error + 'a \<Rightarrow> ('a \<Rightarrow> error + 'b) \<Rightarrow> error + 'b" where
  "bindE m f = (case m of Inl e \<Rightarrow> Inl e | Inr x \<Rightarrow> f x)"

definition nullthrows :: "'a option \<Rightarrow> error + 'a" where
  "nullthrows v = (case v of None \<Rightarrow> Inl NullthrowsError | Some x \<Rightarrow> Inr x)"

definition invariant :: "bool \<Rightarrow> error + unit" where
  "invariant c = (if c then Inr () else Inl InvariantViolation)"

text \<open>A \<open>for (x of xs)\<close> loop whose body may throw.\<close>

primrec forE :: "'a list \<Rightarrow> ('a \<Rightarrow> 's \<Rightarrow> error + 's) \<Rightarrow> 's \<Rightarrow> error + 's" where
  "forE [] body s = Inr s"
| "forE (x # xs) body s = bindE (body x s) (forE xs body)"

text \<open>\<open>xs.filter(p)\<close> with a predicate that may throw.\<close>

primrec filterE :: "('a \<Rightarrow> error + bool) \<Rightarrow> 'a list \<Rightarrow> error + 'a list" where
  "filterE p [] = Inr []"
| "filterE p (x # xs) =
     bindE (p x) (\<lambda>keep. bindE (filterE p xs) (\<lambda>r. Inr (if keep then x # r else r)))"

text \<open>\<open>xs.map(f)\<close> with a function that may throw.\<close>

primrec mapE :: "('a \<Rightarrow> error + 'b) \<Rightarrow> 'a list \<Rightarrow> error + 'b list" where
  "mapE f [] = Inr []"
| "mapE f (x # xs) = bindE (f x) (\<lambda>y. bindE (mapE f xs) (\<lambda>r. Inr (y # r)))"

subsection \<open>JavaScript sets and maps in insertion order\<close>

definition set_add :: "'a \<Rightarrow> 'a list \<Rightarrow> 'a list" where
  "set_add x xs = (if x \<in> set xs then xs else xs @ [x])"

definition new_Set :: "'a list \<Rightarrow> 'a list" where
  "new_Set xs = foldl (\<lambda>acc x. set_add x acc) [] xs"

definition set_delete :: "'a \<Rightarrow> 'a list \<Rightarrow> 'a list" where
  "set_delete x xs = filter (\<lambda>y. y \<noteq> x) xs"

text \<open>\<open>setUnion(a, b) = new Set([...a, ...b])\<close> and the in-place \<open>setIntersect(a, b)\<close>, which
  deletes from \<open>a\<close> what is not in \<open>b\<close>.\<close>

definition setUnion :: "'a list \<Rightarrow> 'a list \<Rightarrow> 'a list" where
  "setUnion a b = new_Set (a @ b)"

definition setIntersect :: "'a list \<Rightarrow> 'a list \<Rightarrow> 'a list" where
  "setIntersect a b = filter (\<lambda>x. x \<in> set b) a"

text \<open>\<open>Map.prototype.set\<close>: an existing key keeps its position.\<close>

primrec map_set :: "('k \<times> 'v) list \<Rightarrow> 'k \<Rightarrow> 'v \<Rightarrow> ('k \<times> 'v) list" where
  "map_set [] k v = [(k, v)]"
| "map_set (p # ps) k v = (if fst p = k then (k, v) # ps else p # map_set ps k v)"

subsection \<open>Graph primitives\<close>

text \<open>
  Modelled from the spec: the class \<open>Graph\<close> of \<open>@parcel/core\<close>, a directed graph with
  a node payload: \<open>addNode(payload)\<close> returns a new node id, \<open>addEdge\<close>, \<open>removeEdge\<close>,
  \<open>removeNode\<close> (which also removes the incident edges), \<open>getNode\<close>,
  \<open>getNodeIdsConnectedFrom\<close> and \<open>getNodeIdsConnectedTo\<close>. Nodes and edges are kept in
  insertion order; removing a node that is not there changes nothing.
\<close>

record 'a Graph =
  nodes :: "(NodeId \<times> 'a) list"
  edges :: "(NodeId \<times> NodeId) list"
  nextNodeId :: NodeId

definition empty_Graph :: "'a Graph" where
  "empty_Graph = \<lparr>nodes = [], edges = [], nextNodeId = 0\<rparr>"

definition addNode :: "'a \<Rightarrow> 'a Graph \<Rightarrow> 'a Graph \<times> NodeId" where
  "addNode v g = (g\<lparr>nodes := nodes g @ [(nextNodeId g, v)], nextNodeId := nextNodeId g + 1\<rparr>,
                  nextNodeId g)"

definition getNode :: "'a Graph \<Rightarrow> NodeId \<Rightarrow> 'a option" where
  "getNode g n = map_of (nodes g) n"

definition addEdge :: "NodeId \<Rightarrow> NodeId \<Rightarrow> 'a Graph \<Rightarrow> 'a Graph" where
  "addEdge f t g = g\<lparr>edges := set_add (f, t) (edges g)\<rparr>"

definition removeEdge :: "NodeId \<Rightarrow> NodeId \<Rightarrow> 'a Graph \<Rightarrow> 'a Graph" where
  "removeEdge f t g = g\<lparr>edges := filter (\<lambda>e. e \<noteq> (f, t)) (edges g)\<rparr>"

definition removeNode :: "NodeId \<Rightarrow> 'a Graph \<Rightarrow> 'a Graph" where
  "removeNode n g = g\<lparr>nodes := filter (\<lambda>p. fst p \<noteq> n) (nodes g),
                       edges := filter (\<lambda>e. fst e \<noteq> n \<and> snd e \<noteq> n) (edges g)\<rparr>"

definition getNodeIdsConnectedFrom :: "'a Graph \<Rightarrow> NodeId \<Rightarrow> NodeId list" where
  "getNodeIdsConnectedFrom g n = map snd (filter (\<lambda>e. fst e = n) (edges g))"

definition getNodeIdsConnectedTo :: "'a Graph \<Rightarrow> NodeId \<Rightarrow> NodeId list" where
  "getNodeIdsConnectedTo g n = map fst (filter (\<lambda>e. snd e = n) (edges g))"

text \<open>The bundles are mutable objects held by the nodes of the graph: a mutation of a bundle
  is an update of the payload of its node.\<close>

definition updateNode :: "NodeId \<Rightarrow> ('a \<Rightarrow> 'a) \<Rightarrow> 'a Graph \<Rightarrow> 'a Graph" where
  "updateNode n f g = g\<lparr>nodes := map (\<lambda>p. if fst p = n then (fst p, f (snd p)) else p) (nodes g)\<rparr>"

text \<open>
  Modelled from the spec: the class \<open>ContentGraph\<close> of \<open>@parcel/core\<close>, a graph whose nodes
  can be addressed by a content key: \<open>addNodeByContentKey(key, payload)\<close> (idempotent: it
  returns the existing id if the key is present), \<open>hasContentKey\<close>,
  \<open>getNodeIdByContentKey\<close> (which throws on a missing key), and labelled edges.
\<close>

record ('a, 'l) ContentGraph =
  cg_nodes :: "(NodeId \<times> 'a) list"
  cg_keys :: "(string \<times> NodeId) list"
  cg_edges :: "(NodeId \<times> NodeId \<times> 'l) list"
  cg_nextNodeId :: NodeId

definition empty_ContentGraph :: "('a, 'l) ContentGraph" where
  "empty_ContentGraph = \<lparr>cg_nodes = [], cg_keys = [], cg_edges = [], cg_nextNodeId = 0\<rparr>"

definition cg_addNode :: "'a \<Rightarrow> ('a, 'l) ContentGraph \<Rightarrow> ('a, 'l) ContentGraph \<times> NodeId" where
  "cg_addNode v g =
     (g\<lparr>cg_nodes := cg_nodes g @ [(cg_nextNodeId g, v)], cg_nextNodeId := cg_nextNodeId g + 1\<rparr>,
      cg_nextNodeId g)"

definition addNodeByContentKey ::
  "string \<Rightarrow> 'a \<Rightarrow> ('a, 'l) ContentGraph \<Rightarrow> ('a, 'l) ContentGraph \<times> NodeId" where
  "addNodeByContentKey k v g =
     (case map_of (cg_keys g) k of
        Some n \<Rightarrow> (g, n)
      | None \<Rightarrow>
          (g\<lparr>cg_nodes := cg_nodes g @ [(cg_nextNodeId g, v)],
             cg_keys := cg_keys g @ [(k, cg_nextNodeId g)],
             cg_nextNodeId := cg_nextNodeId g + 1\<rparr>,
           cg_nextNodeId g))"

definition hasContentKey :: "('a, 'l) ContentGraph \<Rightarrow> string \<Rightarrow> bool" where
  "hasContentKey g k = (map_of (cg_keys g) k \<noteq> None)"

definition getNodeIdByContentKey :: "('a, 'l) ContentGraph \<Rightarrow> string \<Rightarrow> error + NodeId" where
  "getNodeIdByContentKey g k = nullthrows (map_of (cg_keys g) k)"

definition cg_getNode :: "('a, 'l) ContentGraph \<Rightarrow> NodeId \<Rightarrow> 'a option" where
  "cg_getNode g n = map_of (cg_nodes g) n"

definition cg_addEdge :: "NodeId \<Rightarrow> NodeId \<Rightarrow> 'l \<Rightarrow> ('a, 'l) ContentGraph \<Rightarrow> ('a, 'l) ContentGraph" where
  "cg_addEdge f t l g = g\<lparr>cg_edges := set_add (f, t, l) (cg_edges g)\<rparr>"

definition cg_connectedFrom :: "('a, 'l) ContentGraph \<Rightarrow> NodeId \<Rightarrow> NodeId list" where
  "cg_connectedFrom g n = map (\<lambda>e. fst (snd e)) (filter (\<lambda>e. fst e = n) (cg_edges g))"

definition cg_connectedTo :: "('a, 'l) ContentGraph \<Rightarrow> NodeId \<Rightarrow> NodeId list" where
  "cg_connectedTo g n = map fst (filter (\<lambda>e. fst (snd e) = n) (cg_edges g))"

subsection \<open>Depth-first traversal\<close>

text \<open>
  Modelled from the spec: \<open>traverse(visitor)\<close> of the graphs, a depth-first walk that visits
  every node once. \<open>enter\<close> is called when a node is discovered, with the context its parent
  returned, and yields the new state, whether \<open>actions.skipChildren()\<close> was called, and the
  context for the children; \<open>exit\<close> is called when the children of a node are done (not for
  a node whose children were skipped). A frame holds a node (\<open>None\<close> for the root of the asset
  graph, which no visitor sees), the context of its children and the children still to walk.
\<close>

type_synonym ('n, 'c) frame = "'n option \<times> 'c option \<times> 'n list"

function walk ::
  "'n list \<Rightarrow> ('n \<Rightarrow> 'n list) \<Rightarrow> ('n \<Rightarrow> 'c option \<Rightarrow> 's \<Rightarrow> error + ('s \<times> bool \<times> 'c option)) \<Rightarrow>
   ('n \<Rightarrow> 's \<Rightarrow> error + 's) \<Rightarrow> 'n list \<Rightarrow> ('n, 'c) frame list \<Rightarrow> 's \<Rightarrow> error + 's" where
  "walk U ch en ex vis [] s = Inr s"
| "walk U ch en ex vis ((n, ctx, []) # fs) s =
     (case n of
        None \<Rightarrow> walk U ch en ex vis fs s
      | Some m \<Rightarrow> (case ex m s of Inl e \<Rightarrow> Inl e | Inr s' \<Rightarrow> walk U ch en ex vis fs s'))"
| "walk U ch en ex vis ((n, ctx, c # cs) # fs) s =
     (if c \<in> set vis \<or> c \<notin> set U then walk U ch en ex vis ((n, ctx, cs) # fs) s
      else (case en c ctx s of
              Inl e \<Rightarrow> Inl e
            | Inr r \<Rightarrow>
                (if fst (snd r) then walk U ch en ex (c # vis) ((n, ctx, cs) # fs) (fst r)
                 else walk U ch en ex (c # vis)
                        ((Some c, snd (snd r), ch c) # (n, ctx, cs) # fs) (fst r))))"
  by pat_completeness auto

lemma card_unvisited_less:
  "c \<in> set U \<Longrightarrow> c \<notin> set vis \<Longrightarrow> card (set U - insert c (set vis)) < card (set U - set vis)"
  by (rule psubset_card_mono) auto

termination walk
proof (relation "inv_image (less_than <*lex*> less_than)
     (\<lambda>(U, ch, en, ex, vis, fs, s).
        (card (set U - set vis), sum_list (map (\<lambda>f. Suc (length (snd (snd f)))) fs)))",
    goal_cases)
  case 1
  show ?case by (intro wf_inv_image wf_lex_prod wf_less_than)
qed (simp_all add: card_unvisited_less del: card_Diff_insert)

text \<open>A traversal that starts at a given node: the visitor enters the start node first.\<close>

definition walk_from ::
  "'n list \<Rightarrow> ('n \<Rightarrow> 'n list) \<Rightarrow> ('n \<Rightarrow> 'c option \<Rightarrow> 's \<Rightarrow> error + ('s \<times> bool \<times> 'c option)) \<Rightarrow>
   ('n \<Rightarrow> 's \<Rightarrow> error + 's) \<Rightarrow> 'n \<Rightarrow> 's \<Rightarrow> error + 's" where
  "walk_from U ch en ex start s =
     (if start \<notin> set U then Inr s
      else bindE (en start None s) (\<lambda>r.
        if fst (snd r) then Inr (fst r)
        else walk U ch en ex [start] [(Some start, snd (snd r), ch start)] (fst r)))"

text \<open>\<open>topoSort()\<close>: the nodes reachable from the root node, in the reverse of the order in
  which the depth-first walk leaves them, so that back edges are ignored.\<close>

definition topoSort :: "('a, 'l) ContentGraph \<Rightarrow> NodeId \<Rightarrow> error + NodeId list" where
  "topoSort g root =
     bindE (walk_from (map fst (cg_nodes g)) (cg_connectedFrom g)
              (\<lambda>n (c :: unit option) s. Inr (s, False, c)) (\<lambda>n s. Inr (s @ [n])) root [])
       (\<lambda>sorted. Inr (rev sorted))"

subsection \<open>The asset graph\<close>

text \<open>
  Modelled from the spec: the input graph \<open>MutableBundleGraph\<close>, a traversable graph of
  asset and dependency nodes below a root: \<open>ag_entries\<close> are the dependencies below the
  root, \<open>ag_assets\<close> gives every asset node with its dependencies, \<open>ag_dependencies\<close> every
  dependency node with the assets it resolves to (\<open>getDependencyAssets\<close>).
\<close>

datatype GraphNode = AssetNode Asset | DependencyNode Dependency

record AssetGraph =
  ag_entries :: "Dependency list"
  ag_assets :: "(Asset \<times> Dependency list) list"
  ag_dependencies :: "(Dependency \<times> Asset list) list"

definition getDependencyAssets :: "AssetGraph \<Rightarrow> Dependency \<Rightarrow> Asset list" where
  "getDependencyAssets g d = (case map_of (ag_dependencies g) d of None \<Rightarrow> [] | Some as \<Rightarrow> as)"

definition getAssetDependencies :: "AssetGraph \<Rightarrow> Asset \<Rightarrow> Dependency list" where
  "getAssetDependencies g a = (case map_of (ag_assets g) a of None \<Rightarrow> [] | Some ds \<Rightarrow> ds)"

definition ag_nodes :: "AssetGraph \<Rightarrow> GraphNode list" where
  "ag_nodes g = map (\<lambda>p. AssetNode (fst p)) (ag_assets g) @
                map (\<lambda>p. DependencyNode (fst p)) (ag_dependencies g)"

fun ag_children :: "AssetGraph \<Rightarrow> GraphNode \<Rightarrow> GraphNode list" where
  "ag_children g (AssetNode a) = map DependencyNode (getAssetDependencies g a)"
| "ag_children g (DependencyNode d) = map AssetNode (getDependencyAssets g d)"

definition traverse ::
  "AssetGraph \<Rightarrow> (GraphNode \<Rightarrow> GraphNode option \<Rightarrow> 's \<Rightarrow> error + ('s \<times> bool \<times> GraphNode option)) \<Rightarrow>
   (GraphNode \<Rightarrow> 's \<Rightarrow> error + 's) \<Rightarrow> 's \<Rightarrow> error + 's" where
  "traverse g en ex s =
     walk (ag_nodes g) (ag_children g) en ex [] [(None, None, map DependencyNode (ag_entries g))] s"

definition traverse_from ::
  "AssetGraph \<Rightarrow> (GraphNode \<Rightarrow> GraphNode option \<Rightarrow> 's \<Rightarrow> error + ('s \<times> bool \<times> GraphNode option)) \<Rightarrow>
   (GraphNode \<Rightarrow> 's \<Rightarrow> error + 's) \<Rightarrow> Asset \<Rightarrow> 's \<Rightarrow> error + 's" where
  "traverse_from g en ex start s = walk_from (ag_nodes g) (ag_children g) en ex (AssetNode start) s"

subsection \<open>createBundle\<close>

record createBundle_opts =
  opt_target :: Target
  opt_asset :: "Asset option"
  opt_env :: "Environment option"
  opt_type :: "string option"
  opt_needsStableName :: "bool option"
  opt_bundleBehavior :: "BundleBehavior option"

definition createBundle :: "createBundle_opts \<Rightarrow> error + Bundle" where
  "createBundle opts =
     (case opt_asset opts of
        None \<Rightarrow>
          bindE (nullthrows (opt_type opts)) (\<lambda>ty.
          bindE (nullthrows (opt_env opts)) (\<lambda>en.
          Inr \<lparr>assets = [], internalizedAssetIds = [], bundleBehavior = None,
               needsStableName = (opt_needsStableName opts = Some True), bundle_size = 0,
               sourceBundles = [], target = opt_target opts, bundle_env = en, bundle_type = ty\<rparr>))
      | Some asset \<Rightarrow>
          Inr \<lparr>assets = [asset], internalizedAssetIds = [],
               bundleBehavior = asset_bundleBehavior asset,
               needsStableName = (opt_needsStableName opts = Some True),
               bundle_size = stats_size asset, sourceBundles = [], target = opt_target opts,
               bundle_env = (case opt_env opts of None \<Rightarrow> asset_env asset | Some e \<Rightarrow> e),
               bundle_type = (case opt_type opts of None \<Rightarrow> asset_type asset | Some t \<Rightarrow> t)\<rparr>)"

text \<open>\<open>String(nodeId)\<close>, the content key of a bundle in \<open>dependencyBundleGraph\<close>.\<close>

definition digit_char :: "nat \<Rightarrow> char" where
  "digit_char d =
     (if d = 0 then CHR ''0'' else if d = 1 then CHR ''1'' else if d = 2 then CHR ''2''
      else if d = 3 then CHR ''3'' else if d = 4 then CHR ''4'' else if d = 5 then CHR ''5''
      else if d = 6 then CHR ''6'' else if d = 7 then CHR ''7'' else if d = 8 then CHR ''8''
      else CHR ''9'')"

fun string_of_nat :: "nat \<Rightarrow> string" where
  "string_of_nat n =
     (if n < 10 then [digit_char n] else string_of_nat (n div 10) @ [digit_char (n mod 10)])"

declare string_of_nat.simps [simp del]

section \<open>createIdealGraph\<close>

text \<open>
  The local variables of \<open>createIdealGraph\<close>. A node of \<open>dependencyBundleGraph\<close> holds a
  dependency or (a reference to) a bundle, given by the id of the bundle's node in
  \<open>bundleGraph\<close>; a node of \<open>asyncBundleRootGraph\<close> holds a bundle root, or \<open>None\<close> for
  \<open>'root'\<close>. The auto-initialising maps that the code never iterates (\<open>reachableBundles\<close>,
  \<open>assetRefsInBundleGroup\<close>) are total functions with the default value.

  The sets stored in \<open>ancestorAssets\<close> are JavaScript objects that several keys may share
  and that \<open>setIntersect\<close> changes in place: \<open>ancestorAssets\<close> maps a bundle root to a
  reference, and \<open>setStore\<close> maps a reference to the members of the set.
\<close>

datatype DependencyBundleGraphNode = BundleValue NodeId | DependencyValue Dependency

record Planner =
  bundleRoots :: "(Asset \<times> NodeId \<times> NodeId) list"
  bundles :: "string \<Rightarrow> NodeId option"
  dependencyBundleGraph :: "(DependencyBundleGraphNode, DependencyPriority) ContentGraph"
  assetReference :: "(Asset \<times> (Dependency \<times> NodeId) list) list"
  reachableBundles :: "Asset \<Rightarrow> Asset list"
  bundleGraph :: "Bundle Graph"
  stack :: "(Asset \<times> NodeId) list"
  asyncBundleRootGraph :: "(Asset option, unit) ContentGraph"
  rootNodeId :: NodeId
  bundleGroupBundleIds :: "NodeId list"
  entries :: "(Asset \<times> Dependency) list"
  assets_all :: "Asset list"
  reachableRoots :: "(Asset, unit) ContentGraph"
  reachableAsyncRoots :: "(NodeId \<times> Asset list) list"
  ancestorAssets :: "Asset \<Rightarrow> nat option"
  setStore :: "nat \<Rightarrow> Asset list"
  nextSetRef :: nat
  assetRefsInBundleGroup :: "Asset \<Rightarrow> Asset \<Rightarrow> Asset \<Rightarrow> nat"

definition init_Planner :: Planner where
  "init_Planner =
     (let g = cg_addNode None empty_ContentGraph in
      \<lparr>bundleRoots = [], bundles = (\<lambda>k. None), dependencyBundleGraph = empty_ContentGraph,
       assetReference = [], reachableBundles = (\<lambda>a. []), bundleGraph = empty_Graph, stack = [],
       asyncBundleRootGraph = fst g, rootNodeId = snd g, bundleGroupBundleIds = [],
       entries = [], assets_all = [], reachableRoots = empty_ContentGraph,
       reachableAsyncRoots = [], ancestorAssets = (\<lambda>a. None), setStore = (\<lambda>r. []),
       nextSetRef = 0, assetRefsInBundleGroup = (\<lambda>a b c. 0)\<rparr>)"

text \<open>The edge from a dependency to a bundle in \<open>dependencyBundleGraph\<close>.\<close>

definition addDependencyBundleEdge ::
  "Dependency \<Rightarrow> NodeId \<Rightarrow> DependencyPriority \<Rightarrow>
   (DependencyBundleGraphNode, DependencyPriority) ContentGraph \<Rightarrow>
   (DependencyBundleGraphNode, DependencyPriority) ContentGraph" where
  "addDependencyBundleEdge dependency bundleId label g =
     (let r1 = addNodeByContentKey (dep_id dependency) (DependencyValue dependency) g;
          r2 = addNodeByContentKey (string_of_nat bundleId) (BundleValue bundleId) (fst r1)
      in cg_addEdge (snd r1) (snd r2) label (fst r2))"

subsection \<open>Phase 1: bundles for the entries, the type changes and the async dependencies\<close>

text \<open>The first traversal (lines 285-295) collects the entries.\<close>

definition entries_enter ::
  "GraphNode \<Rightarrow> GraphNode option \<Rightarrow> (Asset \<times> Dependency) list \<Rightarrow>
   error + ((Asset \<times> Dependency) list \<times> bool \<times> GraphNode option)" where
  "entries_enter node context es =
     (case node of
        DependencyNode d \<Rightarrow> Inr (es, False, Some node)
      | AssetNode a \<Rightarrow>
          (case context of
             Some (DependencyNode d) \<Rightarrow>
               if dep_isEntry d then Inr (map_set es a d, True, context)
               else Inl InvariantViolation
           | _ \<Rightarrow> Inl InvariantViolation))"

text \<open>The body of the loop over the entries (lines 300-326).\<close>

definition createEntryBundle :: "Asset \<times> Dependency \<Rightarrow> Planner \<Rightarrow> error + Planner" where
  "createEntryBundle e p =
     (let asset = fst e; dependency = snd e in
      bindE (nullthrows (dep_target dependency)) (\<lambda>t.
      bindE (createBundle \<lparr>opt_target = t, opt_asset = Some asset, opt_env = None,
               opt_type = None, opt_needsStableName = Some (dep_isEntry dependency),
               opt_bundleBehavior = None\<rparr>) (\<lambda>bundle.
      let r = addNode bundle (bundleGraph p); nodeId = snd r;
          a = addNodeByContentKey (asset_id asset) (Some asset) (asyncBundleRootGraph p)
      in Inr (p\<lparr>bundleGraph := fst r,
                bundles := (bundles p)(asset_id asset \<mapsto> nodeId),
                bundleRoots := map_set (bundleRoots p) asset (nodeId, nodeId),
                asyncBundleRootGraph := cg_addEdge (rootNodeId p) (snd a) () (fst a),
                dependencyBundleGraph :=
                  addDependencyBundleEdge dependency nodeId (dep_priority dependency)
                    (dependencyBundleGraph p),
                bundleGroupBundleIds := bundleGroupBundleIds p @ [nodeId]\<rparr>))))"

text \<open>The second traversal (lines 331-478). Entering an asset (lines 334-341):\<close>

definition enter_asset :: "Asset \<Rightarrow> Planner \<Rightarrow> Planner" where
  "enter_asset a p =
     (let p1 = p\<lparr>assets_all := assets_all p @ [a]\<rparr> in
      case map_of (bundleRoots p1) a of
        Some bundleIdTuple \<Rightarrow> p1\<lparr>stack := stack p1 @ [(a, snd bundleIdTuple)]\<rparr>
      | None \<Rightarrow> p1)"

text \<open>The walk up the stack (lines 405-430), given the stack from its top; \<open>first\<close> says that
  the frame is the top of the stack.\<close>

primrec markReachable :: "Asset \<Rightarrow> bool \<Rightarrow> (Asset \<times> NodeId) list \<Rightarrow> Planner \<Rightarrow> Planner" where
  "markReachable childAsset first [] p = p"
| "markReachable childAsset first (f # fs) p =
     (let stackAsset = fst f in
      if asset_type stackAsset \<noteq> asset_type childAsset \<or>
         env_context (asset_env stackAsset) \<noteq> env_context (asset_env childAsset) \<or>
         env_isIsolated (asset_env stackAsset)
      then p
      else
        let p1 = p\<lparr>reachableBundles :=
                    (reachableBundles p)(stackAsset := set_add childAsset (reachableBundles p stackAsset))\<rparr>;
            p2 = (if first then
                    (let c = addNodeByContentKey (asset_id childAsset) (Some childAsset)
                               (asyncBundleRootGraph p1);
                         q = addNodeByContentKey (asset_id stackAsset) (Some stackAsset) (fst c)
                     in p1\<lparr>asyncBundleRootGraph := cg_addEdge (snd q) (snd c) () (fst q)\<rparr>)
                  else p1)
        in markReachable childAsset False fs p2)"

text \<open>The bundle of an async dependency (lines 361-432).\<close>

definition asyncSplit :: "Dependency \<Rightarrow> Asset \<Rightarrow> Planner \<Rightarrow> error + Planner" where
  "asyncSplit dependency childAsset p =
     bindE
       (case bundles p (asset_id childAsset) of
          None \<Rightarrow>
            bindE (case stack p of [] \<Rightarrow> Inl TypeError
                   | f # fs \<Rightarrow> nullthrows (getNode (bundleGraph p) (snd f))) (\<lambda>firstBundle.
            bindE (createBundle
                     \<lparr>opt_target = target firstBundle, opt_asset = Some childAsset,
                      opt_env = None, opt_type = None,
                      opt_needsStableName =
                        Some (if dep_bundleBehavior dependency = Some Inline \<or>
                                 asset_bundleBehavior childAsset = Some Inline
                              then False
                              else dep_isEntry dependency \<or> dep_needsStableName dependency),
                      opt_bundleBehavior =
                        (case dep_bundleBehavior dependency of
                           Some b \<Rightarrow> Some b
                         | None \<Rightarrow> asset_bundleBehavior childAsset)\<rparr>) (\<lambda>bundle.
            let r = addNode bundle (bundleGraph p); bundleId = snd r in
            Inr (p\<lparr>bundleGraph := fst r,
                   bundles := (bundles p)(asset_id childAsset \<mapsto> bundleId),
                   bundleRoots := map_set (bundleRoots p) childAsset (bundleId, bundleId),
                   bundleGroupBundleIds := bundleGroupBundleIds p @ [bundleId]\<rparr>, bundleId)))
        | Some bundleId \<Rightarrow>
            bindE (nullthrows (getNode (bundleGraph p) bundleId)) (\<lambda>bundle. Inr (p, bundleId)))
       (\<lambda>r. let p1 = fst r; bundleId = snd r;
                p2 = p1\<lparr>dependencyBundleGraph :=
                         addDependencyBundleEdge dependency bundleId (dep_priority dependency)
                           (dependencyBundleGraph p1)\<rparr>
            in Inr (markReachable childAsset True (rev (stack p2)) p2))"

text \<open>\<open>assetReference.get(childAsset).push([dependency, bundle])\<close> on the
  auto-initialising map.\<close>

primrec assetReference_push ::
  "Asset \<Rightarrow> Dependency \<times> NodeId \<Rightarrow> (Asset \<times> (Dependency \<times> NodeId) list) list \<Rightarrow>
   (Asset \<times> (Dependency \<times> NodeId) list) list" where
  "assetReference_push a r [] = [(a, [r])]"
| "assetReference_push a r (p # ps) =
     (if fst p = a then (a, snd p @ [r]) # ps else p # assetReference_push a r ps)"

text \<open>The bundle of a change of type (lines 435-469).\<close>

definition typeChangeSplit :: "Dependency \<Rightarrow> Asset \<Rightarrow> Planner \<Rightarrow> error + Planner" where
  "typeChangeSplit dependency childAsset p =
     bindE (case stack p of [] \<Rightarrow> Inl NullthrowsError | f # fs \<Rightarrow> Inr (snd (last (stack p))))
       (\<lambda>bundleGroupNodeId.
     bindE (nullthrows (getNode (bundleGraph p) bundleGroupNodeId)) (\<lambda>bundleGroup.
     bindE (createBundle
              \<lparr>opt_target = target bundleGroup, opt_asset = Some childAsset, opt_env = None,
               opt_type = None,
               opt_needsStableName = Some (dep_bundleBehavior dependency = Some Inline),
               opt_bundleBehavior = None\<rparr>) (\<lambda>bundle.
     let r = addNode bundle (bundleGraph p); bundleId = snd r in
     Inr (p\<lparr>bundleGraph := addEdge bundleGroupNodeId bundleId (fst r),
            bundles := (bundles p)(asset_id childAsset \<mapsto> bundleId),
            bundleRoots := map_set (bundleRoots p) childAsset (bundleId, bundleGroupNodeId),
            dependencyBundleGraph :=
              addDependencyBundleEdge dependency bundleId Parallel (dependencyBundleGraph p),
            assetReference :=
              assetReference_push childAsset (dependency, bundleId) (assetReference p)\<rparr>))))"

text \<open>Entering a dependency (lines 342-470).\<close>

definition enter_dependency ::
  "AssetGraph \<Rightarrow> Dependency \<Rightarrow> GraphNode option \<Rightarrow> Planner \<Rightarrow> error + Planner" where
  "enter_dependency g dependency context p =
     (case context of
        None \<Rightarrow> Inr p
      | Some (DependencyNode d) \<Rightarrow> Inl InvariantViolation
      | Some (AssetNode parentAsset) \<Rightarrow>
          (case getDependencyAssets g dependency of
             [] \<Rightarrow> Inr p
           | [childAsset] \<Rightarrow>
               if dep_priority dependency = Lazy \<or> asset_bundleBehavior childAsset = Some Isolated
               then asyncSplit dependency childAsset p
               else if asset_type parentAsset \<noteq> asset_type childAsset \<or>
                       asset_bundleBehavior childAsset = Some Inline
               then typeChangeSplit dependency childAsset p
               else Inr p
           | _ \<Rightarrow> Inl InvariantViolation))"

definition split_enter ::
  "AssetGraph \<Rightarrow> GraphNode \<Rightarrow> GraphNode option \<Rightarrow> Planner \<Rightarrow>
   error + (Planner \<times> bool \<times> GraphNode option)" where
  "split_enter g node context p =
     (case node of
        AssetNode a \<Rightarrow> Inr (enter_asset a p, False, Some node)
      | DependencyNode d \<Rightarrow>
          bindE (enter_dependency g d context p) (\<lambda>p'. Inr (p', False, Some node)))"

definition split_exit :: "GraphNode \<Rightarrow> Planner \<Rightarrow> error + Planner" where
  "split_exit node p =
     (case node of
        AssetNode a \<Rightarrow>
          (case stack p of
             [] \<Rightarrow> Inr p
           | f # fs \<Rightarrow>
               if fst (last (stack p)) = a then Inr (p\<lparr>stack := butlast (stack p)\<rparr>) else Inr p)
      | DependencyNode d \<Rightarrow> Inr p)"

definition phase1 :: "AssetGraph \<Rightarrow> error + Planner" where
  "phase1 g =
     bindE (traverse g entries_enter (\<lambda>n s. Inr s) []) (\<lambda>es.
     bindE (forE es createEntryBundle (init_Planner\<lparr>entries := es\<rparr>)) (\<lambda>p.
     traverse g (split_enter g) split_exit p))"

subsection \<open>Phase 2: reachability of every asset from each bundle root\<close>

text \<open>\<open>reachableAsyncRoots.get(k).add(a)\<close> and \<open>reachableAsyncRoots.get(k).delete(a)\<close> on the
  auto-initialising map: \<open>get\<close> creates the entry of a key that has none.\<close>

definition reachableAsyncRoots_get :: "(NodeId \<times> Asset list) list \<Rightarrow> NodeId \<Rightarrow> Asset list" where
  "reachableAsyncRoots_get m k = (case map_of m k of None \<Rightarrow> [] | Some s \<Rightarrow> s)"

definition reachableAsyncRoots_add ::
  "NodeId \<Rightarrow> Asset \<Rightarrow> (NodeId \<times> Asset list) list \<Rightarrow> (NodeId \<times> Asset list) list" where
  "reachableAsyncRoots_add k a m = map_set m k (set_add a (reachableAsyncRoots_get m k))"

definition reachableAsyncRoots_delete ::
  "NodeId \<Rightarrow> Asset \<Rightarrow> (NodeId \<times> Asset list) list \<Rightarrow> (NodeId \<times> Asset list) list" where
  "reachableAsyncRoots_delete k a m = map_set m k (set_delete a (reachableAsyncRoots_get m k))"

text \<open>The visitor of the traversal from a bundle root (lines 490-522).\<close>

definition reach_enter ::
  "AssetGraph \<Rightarrow> Asset \<Rightarrow> NodeId \<Rightarrow> GraphNode \<Rightarrow> GraphNode option \<Rightarrow> Planner \<Rightarrow>
   error + (Planner \<times> bool \<times> GraphNode option)" where
  "reach_enter g root rootId node context p =
     (if node = AssetNode root then Inr (p, False, context)
      else
        (case node of
           DependencyNode d \<Rightarrow>
             if hasContentKey (dependencyBundleGraph p) (dep_id d) then
               (if dep_priority d = Lazy then
                  (case getDependencyAssets g d of
                     [] \<Rightarrow> Inr (p, False, Some node)
                   | [bundleRoot] \<Rightarrow>
                       bindE (invariant (map_of (bundleRoots p) bundleRoot \<noteq> None)) (\<lambda>u.
                       bindE (nullthrows (bundles p (asset_id bundleRoot))) (\<lambda>bundleId.
                       Inr (p\<lparr>reachableAsyncRoots :=
                                reachableAsyncRoots_add bundleId root (reachableAsyncRoots p)\<rparr>,
                            True, context)))
                   | _ \<Rightarrow> Inl InvariantViolation)
                else Inr (p, True, context))
             else Inr (p, False, context)
         | AssetNode a \<Rightarrow>
             (let r = addNodeByContentKey (asset_id a) a (reachableRoots p) in
              Inr (p\<lparr>reachableRoots := cg_addEdge rootId (snd r) () (fst r)\<rparr>, False, context))))"

definition phase2_root :: "AssetGraph \<Rightarrow> Asset \<Rightarrow> Planner \<Rightarrow> error + Planner" where
  "phase2_root g root p =
     (let r = addNodeByContentKey (asset_id root) root (reachableRoots p) in
      traverse_from g (reach_enter g root (snd r)) (\<lambda>n s. Inr s) root
        (p\<lparr>reachableRoots := fst r\<rparr>))"

definition phase2 :: "AssetGraph \<Rightarrow> Planner \<Rightarrow> error + Planner" where
  "phase2 g p = forE (map fst (bundleRoots p)) (phase2_root g) p"

subsection \<open>Phase 3: the assets available from the ancestors of each bundle root\<close>

definition allocSet :: "Asset list \<Rightarrow> Planner \<Rightarrow> Planner \<times> nat" where
  "allocSet xs p =
     (p\<lparr>setStore := (setStore p)(nextSetRef p := xs), nextSetRef := nextSetRef p + 1\<rparr>,
      nextSetRef p)"

text \<open>The assets connected from a bundle root in \<open>reachableRoots\<close> (lines 562-566, 594-598).\<close>

definition assetsConnectedFrom :: "(Asset, unit) ContentGraph \<Rightarrow> Asset \<Rightarrow> error + Asset list" where
  "assetsConnectedFrom graph a =
     bindE (getNodeIdByContentKey graph (asset_id a)) (\<lambda>n.
     mapE (\<lambda>i. nullthrows (cg_getNode graph i)) (cg_connectedFrom graph n))"

text \<open>The loop of lines 584-590 leaves in \<open>bundleRootInGroup\<close> the last asset of the bundle
  that is a bundle root.\<close>

definition scanBundleRoot :: "Planner \<Rightarrow> Asset list \<Rightarrow> Asset option \<Rightarrow> Asset option" where
  "scanBundleRoot p as cur =
     foldl (\<lambda>r a. if map_of (bundleRoots p) a \<noteq> None then Some a else r) cur as"

text \<open>The local variables of one round of the loop over the bundle roots.\<close>

record GroupLocals =
  availableAssetsfromBundleGroup :: "Asset list"
  auxilaryRefCount :: "Asset \<Rightarrow> nat"
  bundleRootInGroup :: "Asset option"
  assetRefs :: "Asset \<Rightarrow> Asset \<Rightarrow> nat"

text \<open>Lines 609-618, for one asset of a bundle of the group that is neither isolated nor
  inline.\<close>

definition countAsset :: "Asset \<Rightarrow> Asset \<Rightarrow> GroupLocals \<Rightarrow> GroupLocals" where
  "countAsset rootInGroup asset l =
     (let l1 = (if asset \<in> set (availableAssetsfromBundleGroup l)
                then l\<lparr>auxilaryRefCount :=
                         (auxilaryRefCount l)(asset := auxilaryRefCount l asset + 1)\<rparr>
                else l\<lparr>availableAssetsfromBundleGroup := availableAssetsfromBundleGroup l @ [asset],
                       auxilaryRefCount := (auxilaryRefCount l)(asset := 1)\<rparr>)
      in l1\<lparr>assetRefs :=
               (assetRefs l1)(rootInGroup :=
                  (assetRefs l1 rootInGroup)(asset := auxilaryRefCount l1 asset))\<rparr>)"

text \<open>The body of the first loop over the bundles of the group (lines 579-621).\<close>

definition groupCount :: "Planner \<Rightarrow> NodeId \<Rightarrow> GroupLocals \<Rightarrow> error + GroupLocals" where
  "groupCount p bundleIdInGroup l =
     (case getNode (bundleGraph p) bundleIdInGroup of
        None \<Rightarrow> Inl TypeError
      | Some bundleInGroup \<Rightarrow>
          (case scanBundleRoot p (assets bundleInGroup) (bundleRootInGroup l) of
             None \<Rightarrow> Inl InvariantViolation
           | Some rootInGroup \<Rightarrow>
               bindE (assetsConnectedFrom (reachableRoots p) rootInGroup) (\<lambda>fromRoot.
               let assetsFromBundleRoot = fromRoot @ assets bundleInGroup;
                   l1 = l\<lparr>bundleRootInGroup := Some rootInGroup\<rparr>
               in Inr (if bundleBehavior bundleInGroup \<noteq> Some Isolated \<and>
                          bundleBehavior bundleInGroup \<noteq> Some Inline
                       then foldl (\<lambda>acc asset. countAsset rootInGroup asset acc) l1
                              assetsFromBundleRoot
                       else l1))))"

text \<open>The body of the second loop over the bundles of the group (lines 627-663), with the
  reference of the set \<open>availableAssetsfromBundleGroup\<close>. The function \<open>setIntersection\<close> of
  line 649 is declared nowhere: calling it throws a \<open>ReferenceError\<close>.\<close>

definition groupAvailability ::
  "nat \<Rightarrow> NodeId \<Rightarrow> Planner \<times> Asset option \<Rightarrow> error + Planner \<times> Asset option" where
  "groupAvailability availableRef bundleIdInGroup s =
     (let p = fst s in
      case getNode (bundleGraph p) bundleIdInGroup of
        None \<Rightarrow> Inl InvariantViolation
      | Some bundleInGroup \<Rightarrow>
          (case scanBundleRoot p (assets bundleInGroup) (snd s) of
             None \<Rightarrow> Inl InvariantViolation
           | Some rootInGroup \<Rightarrow>
               (case ancestorAssets p rootInGroup of
                  None \<Rightarrow>
                    Inr (p\<lparr>ancestorAssets := (ancestorAssets p)(rootInGroup \<mapsto> availableRef)\<rparr>,
                         Some rootInGroup)
                | Some availableAssets \<Rightarrow>
                    if length (getNodeIdsConnectedTo (bundleGraph p) bundleIdInGroup) > 1
                    then Inl ReferenceError
                    else
                      (let r = allocSet (setUnion (setStore p availableRef)
                                           (setStore p availableAssets)) p
                       in Inr ((fst r)\<lparr>ancestorAssets :=
                                          (ancestorAssets (fst r))(rootInGroup \<mapsto> snd r)\<rparr>,
                               Some rootInGroup)))))"

text \<open>The update of a child of the bundle root in \<open>asyncBundleRootGraph\<close> (lines 672-682),
  with the reference of the set \<open>combined\<close>.\<close>

definition updateChild :: "nat \<Rightarrow> NodeId \<Rightarrow> Planner \<Rightarrow> error + Planner" where
  "updateChild combined childId p =
     (case cg_getNode (asyncBundleRootGraph p) childId of
        None \<Rightarrow> Inl InvariantViolation
      | Some None \<Rightarrow> Inl InvariantViolation
      | Some (Some child) \<Rightarrow>
          (case ancestorAssets p child of
             None \<Rightarrow> Inr (p\<lparr>ancestorAssets := (ancestorAssets p)(child \<mapsto> combined)\<rparr>)
           | Some availableAssets \<Rightarrow>
               Inr (p\<lparr>setStore := (setStore p)(availableAssets :=
                        setIntersect (setStore p availableAssets) (setStore p combined))\<rparr>)))"

text \<open>The first part of a round of the loop over \<open>asyncBundleRootGraph.topoSort()\<close>, for
  the bundle group of the bundle root (lines 562-664). It yields \<open>syncAssetsLoaded\<close> too.\<close>

definition phase3_group :: "Asset \<Rightarrow> Planner \<Rightarrow> error + Planner \<times> Asset list" where
  "phase3_group bundleRoot p =
     bindE (assetsConnectedFrom (reachableRoots p) bundleRoot) (\<lambda>syncAssetsLoaded.
     bindE (nullthrows (map_of (bundleRoots p) bundleRoot)) (\<lambda>tuple.
     let bundleGroupId = snd tuple;
         group = getNodeIdsConnectedFrom (bundleGraph p) bundleGroupId
     in
     bindE (forE group (groupCount p)
              \<lparr>availableAssetsfromBundleGroup = new_Set syncAssetsLoaded,
               auxilaryRefCount = (\<lambda>a. 0), bundleRootInGroup = None,
               assetRefs = assetRefsInBundleGroup p bundleRoot\<rparr>) (\<lambda>l.
     let p1 = p\<lparr>assetRefsInBundleGroup :=
                 (assetRefsInBundleGroup p)(bundleRoot := assetRefs l)\<rparr>;
         a = allocSet (availableAssetsfromBundleGroup l) p1
     in
     bindE (forE group (groupAvailability (snd a)) (fst a, bundleRootInGroup l)) (\<lambda>s.
     Inr (fst s, syncAssetsLoaded)))))"

text \<open>The second part (lines 667-682): the set \<open>combined\<close> from \<open>ancestors\<close>, the set that
  \<open>ancestorAssets\<close> held for the bundle root at the start of the round, and the update of
  the children of the bundle root in \<open>asyncBundleRootGraph\<close>.\<close>

definition phase3_children ::
  "NodeId \<Rightarrow> nat option \<Rightarrow> Asset list \<Rightarrow> Planner \<Rightarrow> error + Planner" where
  "phase3_children nodeId ancestors syncAssetsLoaded p =
     (let c = allocSet (case ancestors of
                          Some r \<Rightarrow> setUnion (setStore p r) syncAssetsLoaded
                        | None \<Rightarrow> new_Set syncAssetsLoaded) p
      in forE (cg_connectedFrom (asyncBundleRootGraph p) nodeId) (updateChild (snd c)) (fst c))"

text \<open>One round of the loop (lines 557-683).\<close>

definition phase3_node :: "NodeId \<Rightarrow> Planner \<Rightarrow> error + Planner" where
  "phase3_node nodeId p =
     (case cg_getNode (asyncBundleRootGraph p) nodeId of
        None \<Rightarrow> Inl InvariantViolation
      | Some None \<Rightarrow> Inr p
      | Some (Some bundleRoot) \<Rightarrow>
          bindE (phase3_group bundleRoot p) (\<lambda>r.
          phase3_children nodeId (ancestorAssets p bundleRoot) (snd r) (fst r)))"

definition phase3 :: "Planner \<Rightarrow> error + Planner" where
  "phase3 p =
     bindE (topoSort (asyncBundleRootGraph p) (rootNodeId p)) (\<lambda>sorted. forE sorted phase3_node p)"

subsection \<open>Phase 4: placement of the assets into bundles\<close>

definition getReachableBundleRoots :: "Asset \<Rightarrow> (Asset, unit) ContentGraph \<Rightarrow> error + Asset list" where
  "getReachableBundleRoots asset graph =
     bindE (getNodeIdByContentKey graph (asset_id asset)) (\<lambda>n.
     mapE (\<lambda>i. nullthrows (cg_getNode graph i)) (cg_connectedTo graph n))"

text \<open>The predicate of \<open>reachable.filter\<close> (lines 709-746).\<close>

definition keepReachable :: "Planner \<Rightarrow> Asset \<Rightarrow> Asset \<Rightarrow> error + bool" where
  "keepReachable p asset b =
     (let one = \<not> (case ancestorAssets p b of None \<Rightarrow> False
                    | Some r \<Rightarrow> asset \<in> set (setStore p r)) in
      bindE (case map_of (bundleRoots p) b of
               None \<Rightarrow> Inr None
             | Some tuple \<Rightarrow>
                 (case getNode (bundleGraph p) (snd tuple) of
                    None \<Rightarrow> Inl TypeError
                  | Some bundleGroup \<Rightarrow>
                      (case assets bundleGroup of
                         [] \<Rightarrow> Inl NullthrowsError
                       | x # xs \<Rightarrow> Inr (Some x)))) (\<lambda>assetsBundleGroupRoot.
      if \<not> one then Inr False
      else (case assetsBundleGroupRoot of
              Some r \<Rightarrow> Inr (\<not> (assetRefsInBundleGroup p r b asset > 1))
            | None \<Rightarrow> Inr one)))"

text \<open>The asset is a bundle root (lines 762-804).\<close>

definition internalize :: "Asset \<Rightarrow> Asset \<Rightarrow> Planner \<Rightarrow> error + Planner" where
  "internalize asset bundleRoot p =
     (if bundleRoot \<noteq> asset then
        bindE (nullthrows (bundles p (asset_id bundleRoot))) (\<lambda>bundleId.
        bindE (nullthrows (getNode (bundleGraph p) bundleId)) (\<lambda>bundle.
        Inr (p\<lparr>bundleGraph :=
                 updateNode bundleId
                   (\<lambda>b. b\<lparr>internalizedAssetIds := internalizedAssetIds b @ [asset_id asset]\<rparr>)
                   (bundleGraph p)\<rparr>)))
      else Inr p)"

definition placeBundleRoot ::
  "Asset \<Rightarrow> NodeId \<times> NodeId \<Rightarrow> Asset list \<Rightarrow> Planner \<Rightarrow> error + Planner" where
  "placeBundleRoot asset rootBundle reachable p =
     (let p1 = (if bundles p (asset_id asset) = None
                then p\<lparr>bundles := (bundles p)(asset_id asset \<mapsto> fst rootBundle)\<rparr> else p)
      in
      bindE (forE reachable
               (\<lambda>reachableAsset q.
                  if reachableAsset \<noteq> asset then
                    bindE (nullthrows (map_of (bundleRoots q) reachableAsset)) (\<lambda>tuple.
                    Inr (q\<lparr>bundleGraph := addEdge (snd tuple) (fst rootBundle) (bundleGraph q)\<rparr>))
                  else Inr q) p1) (\<lambda>p2.
      let reachableAsync = reachableAsyncRoots_get (reachableAsyncRoots p2) (fst rootBundle) in
      bindE (getReachableBundleRoots asset (reachableRoots p2)) (\<lambda>roots.
      let willInternalizeRoots =
            filter (\<lambda>b. list_ex (\<lambda>a. a = b \<or> b \<in> set (reachableBundles p2 a)) roots)
              reachableAsync
      in forE willInternalizeRoots (internalize asset) p2)))"

text \<open>\<open>ids.join(',')\<close>.\<close>

fun join_comma :: "string list \<Rightarrow> string" where
  "join_comma [] = []"
| "join_comma [x] = x"
| "join_comma (x # y # ys) = x @ '','' @ join_comma (y # ys)"

text \<open>\<open>bundle.assets.add(asset); bundle.size += asset.stats.size\<close> on the bundle of a node.\<close>

definition addAssetToBundle :: "NodeId \<Rightarrow> Asset \<Rightarrow> Bundle Graph \<Rightarrow> Bundle Graph" where
  "addAssetToBundle n asset g =
     updateNode n (\<lambda>b. b\<lparr>assets := set_add asset (assets b),
                          bundle_size := bundle_size b + stats_size asset\<rparr>) g"

text \<open>The asset goes to the bundle of its combination of bundle roots (lines 805-844): the
  bundle found under the key, or a new one (lines 811-829).\<close>

definition sharedBundleOf :: "Asset list \<Rightarrow> NodeId list \<Rightarrow> Planner \<Rightarrow> error + Planner \<times> NodeId" where
  "sharedBundleOf reachable sources p =
     (let key = join_comma (map asset_id reachable) in
      case bundles p key of
        None \<Rightarrow>
          bindE (case sources of [] \<Rightarrow> Inl NullthrowsError
                 | x # xs \<Rightarrow> nullthrows (getNode (bundleGraph p) x)) (\<lambda>firstSourceBundle.
          bindE (createBundle
                   \<lparr>opt_target = target firstSourceBundle, opt_asset = None,
                    opt_env = Some (bundle_env firstSourceBundle),
                    opt_type = Some (bundle_type firstSourceBundle),
                    opt_needsStableName = None, opt_bundleBehavior = None\<rparr>) (\<lambda>bundle.
          let r = addNode (bundle\<lparr>sourceBundles := sources\<rparr>) (bundleGraph p) in
          Inr (p\<lparr>bundleGraph := fst r, bundles := (bundles p)(key \<mapsto> snd r)\<rparr>, snd r)))
      | Some bundleId \<Rightarrow>
          bindE (nullthrows (getNode (bundleGraph p) bundleId)) (\<lambda>bundle. Inr (p, bundleId)))"

text \<open>Lines 831-843: the asset joins the bundle, and the bundle joins each bundle group.\<close>

definition addToSharedBundle :: "Asset \<Rightarrow> NodeId list \<Rightarrow> NodeId \<Rightarrow> Planner \<Rightarrow> Planner" where
  "addToSharedBundle asset sources bundleId p =
     p\<lparr>bundleGraph :=
         foldl (\<lambda>g sourceBundleId.
                  if bundleId \<noteq> sourceBundleId then addEdge sourceBundleId bundleId g else g)
           (addAssetToBundle bundleId asset (bundleGraph p)) sources,
       dependencyBundleGraph :=
         fst (addNodeByContentKey (string_of_nat bundleId) (BundleValue bundleId)
               (dependencyBundleGraph p))\<rparr>"

definition placeShared :: "Asset \<Rightarrow> Asset list \<Rightarrow> Planner \<Rightarrow> error + Planner" where
  "placeShared asset reachable p =
     bindE (mapE (\<lambda>a. nullthrows (bundles p (asset_id a))) reachable) (\<lambda>sources.
     bindE (sharedBundleOf reachable sources p) (\<lambda>r.
     Inr (addToSharedBundle asset sources (snd r) (fst r))))"

text \<open>The body of the loop over the assets (lines 689-845).\<close>

definition placeAsset :: "Asset \<Rightarrow> Planner \<Rightarrow> error + Planner" where
  "placeAsset asset p =
     bindE (getReachableBundleRoots asset (reachableRoots p)) (\<lambda>roots.
     bindE (filterE (keepReachable p asset) roots) (\<lambda>reachable.
     case map_of (bundleRoots p) asset of
       Some rootBundle \<Rightarrow> placeBundleRoot asset rootBundle reachable p
     | None \<Rightarrow> if length reachable > 0 then placeShared asset reachable p else Inr p))"

definition phase4 :: "Planner \<Rightarrow> error + Planner" where
  "phase4 p = forE (assets_all p) placeAsset p"

subsection \<open>Phase 5: merging\<close>

record ResolvedBundlerConfig =
  minBundles :: nat
  minBundleSize :: nat
  maxParallelRequests :: nat

text \<open>The loops of \<open>removeBundle\<close> (lines 973-979): every source bundle takes every asset
  of the bundle.\<close>

definition copyToSourceBundles :: "Bundle \<Rightarrow> Bundle Graph \<Rightarrow> error + Bundle Graph" where
  "copyToSourceBundles bundle g =
     forE (assets bundle)
       (\<lambda>asset. forE (sourceBundles bundle)
          (\<lambda>sourceBundleId h.
             bindE (nullthrows (getNode h sourceBundleId)) (\<lambda>sourceBundle.
             Inr (addAssetToBundle sourceBundleId asset h)))) g"

definition removeBundle :: "NodeId \<Rightarrow> Bundle Graph \<Rightarrow> error + Bundle Graph" where
  "removeBundle bundleId g =
     bindE (nullthrows (getNode g bundleId)) (\<lambda>bundle.
     bindE (copyToSourceBundles bundle g) (\<lambda>g1.
     Inr (removeNode bundleId g1)))"

text \<open>The loop of lines 849-853 over the nodes of the graph; a node that was deleted is not
  visited.\<close>

definition mergeSmallShared :: "ResolvedBundlerConfig \<Rightarrow> NodeId \<Rightarrow> Bundle Graph \<Rightarrow> error + Bundle Graph" where
  "mergeSmallShared config bundleNodeId g =
     (case getNode g bundleNodeId of
        None \<Rightarrow> Inr g
      | Some bundle \<Rightarrow>
          if length (sourceBundles bundle) > 0 \<and> bundle_size bundle < minBundleSize config
          then removeBundle bundleNodeId g else Inr g)"

definition removeSmallShared :: "ResolvedBundlerConfig \<Rightarrow> Bundle Graph \<Rightarrow> error + Bundle Graph" where
  "removeSmallShared config g = forE (map fst (nodes g)) (mergeSmallShared config) g"

text \<open>The loops of lines 863-866 and 877-880: a bundle takes the assets of a sibling.\<close>

definition absorbAssets :: "NodeId \<Rightarrow> Asset list \<Rightarrow> Bundle Graph \<Rightarrow> Bundle Graph" where
  "absorbAssets n as g = foldl (\<lambda>h asset. addAssetToBundle n asset h) g as"

text \<open>Lines 869-883: the entry bundle leaves the source bundles of the sibling; when one
  source bundle is left, it leaves too and takes the assets of the sibling.\<close>

definition removeSourceBundle ::
  "NodeId \<Rightarrow> NodeId \<Rightarrow> Bundle \<Rightarrow> Bundle Graph \<Rightarrow> error + Bundle Graph" where
  "removeSourceBundle entryBundleId siblingId sibling g =
     (if length (sourceBundles sibling) > 1 then
        bindE (invariant (entryBundleId \<in> set (sourceBundles sibling))) (\<lambda>u.
        let rest = remove1 entryBundleId (sourceBundles sibling) in
        if length rest = 1 then
          (let ident = last rest;
               g3 = updateNode siblingId (\<lambda>b. b\<lparr>sourceBundles := []\<rparr>) g
           in bindE (nullthrows (getNode g3 ident)) (\<lambda>bundle.
              Inr (removeEdge ident siblingId (absorbAssets ident (assets sibling) g3))))
        else Inr (updateNode siblingId (\<lambda>b. b\<lparr>sourceBundles := rest\<rparr>) g))
      else Inr g)"

text \<open>The body of the loop over the siblings of an entry bundle (lines 858-884).\<close>

definition foldSibling :: "Asset \<Rightarrow> NodeId \<Rightarrow> NodeId \<Rightarrow> Planner \<Rightarrow> error + Planner" where
  "foldSibling entryAsset entryBundleId siblingId p =
     bindE (nullthrows (getNode (bundleGraph p) siblingId)) (\<lambda>sibling.
     bindE (nullthrows (getNode (bundleGraph p) entryBundleId)) (\<lambda>entryBundle.
     if bundle_type sibling \<noteq> bundle_type entryBundle then Inr p
     else
       bindE (removeSourceBundle entryBundleId siblingId sibling
                (removeEdge entryBundleId siblingId
                   (absorbAssets entryBundleId (assets sibling) (bundleGraph p)))) (\<lambda>g.
       Inr (p\<lparr>bundleGraph := g,
              reachableAsyncRoots :=
                reachableAsyncRoots_delete siblingId entryAsset (reachableAsyncRoots p)\<rparr>))))"

text \<open>The body of the loop over the entries (lines 855-885).\<close>

definition foldEntry :: "Asset \<Rightarrow> Planner \<Rightarrow> error + Planner" where
  "foldEntry entryAsset p =
     bindE (nullthrows (map_option fst (map_of (bundleRoots p) entryAsset))) (\<lambda>entryBundleId.
     bindE (nullthrows (getNode (bundleGraph p) entryBundleId)) (\<lambda>entryBundle.
     forE (getNodeIdsConnectedFrom (bundleGraph p) entryBundleId)
       (foldSibling entryAsset entryBundleId) p))"

text \<open>The loop of lines 887-891.\<close>

definition dropOrphans :: "(NodeId \<times> Asset list) list \<Rightarrow> Bundle Graph \<Rightarrow> Bundle Graph" where
  "dropOrphans m g =
     foldl (\<lambda>h e. if length (snd e) = 0 then removeNode (fst e) h else h) g m"

definition phase5 :: "ResolvedBundlerConfig \<Rightarrow> Planner \<Rightarrow> error + Planner" where
  "phase5 config p =
     bindE (removeSmallShared config (bundleGraph p)) (\<lambda>g.
     bindE (forE (map fst (entries p)) foldEntry (p\<lparr>bundleGraph := g\<rparr>)) (\<lambda>p1.
     Inr (p1\<lparr>bundleGraph := dropOrphans (reachableAsyncRoots p1) (bundleGraph p1)\<rparr>)))"

subsection \<open>Phase 6: the ideal graph\<close>

record IdealGraph =
  ig_dependencyBundleGraph :: "(DependencyBundleGraphNode, DependencyPriority) ContentGraph"
  ig_bundleGraph :: "Bundle Graph"
  ig_bundleGroupBundleIds :: "NodeId list"
  entryBundles :: "NodeId list"
  ig_assetReference :: "(Asset \<times> (Dependency \<times> NodeId) list) list"

definition export :: "Planner \<Rightarrow> IdealGraph" where
  "export p =
     \<lparr>ig_dependencyBundleGraph = dependencyBundleGraph p, ig_bundleGraph = bundleGraph p,
      ig_bundleGroupBundleIds = bundleGroupBundleIds p,
      entryBundles = map (\<lambda>e. fst (snd e)) (bundleRoots p),
      ig_assetReference = assetReference p\<rparr>"

definition createIdealGraph :: "AssetGraph \<Rightarrow> ResolvedBundlerConfig \<Rightarrow> error + IdealGraph" where
  "createIdealGraph assetGraph config =
     bindE (phase1 assetGraph) (\<lambda>p1.
     bindE (phase2 assetGraph p1) (\<lambda>p2.
     bindE (phase3 p2) (\<lambda>p3.
     bindE (phase4 p3) (\<lambda>p4.
     bindE (phase5 config p4) (\<lambda>p5.
     Inr (export p5))))))"

section \<open>Scenarios\<close>

text \<open>Assets and dependencies of the scenarios: an asset of the browser context that is not
  isolated, and a dependency whose target is set when it is an entry.\<close>

definition mkAsset :: "string \<Rightarrow> string \<Rightarrow> BundleBehavior option \<Rightarrow> nat \<Rightarrow> Asset" where
  "mkAsset i t b sz =
     \<lparr>asset_id = i, asset_type = t,
      asset_env = \<lparr>env_context = ''browser'', env_isIsolated = False\<rparr>,
      asset_bundleBehavior = b, stats_size = sz\<rparr>"

definition mkDep ::
  "string \<Rightarrow> DependencyPriority \<Rightarrow> bool \<Rightarrow> BundleBehavior option \<Rightarrow> bool \<Rightarrow> Dependency" where
  "mkDep i pr en b st =
     \<lparr>dep_id = i, dep_priority = pr, dep_isEntry = en,
      dep_target = (if en then Some ''dist'' else None),
      dep_bundleBehavior = b, dep_needsStableName = st\<rparr>"

text \<open>The default options of HTTP/2 (\<open>HTTP_OPTIONS['2']\<close>).\<close>

definition http2 :: ResolvedBundlerConfig where
  "http2 = \<lparr>minBundles = 1, minBundleSize = 20000, maxParallelRequests = 25\<rparr>"

text \<open>An entry \<open>E\<close> imports \<open>C\<close> lazily, through a dependency whose \<open>bundleBehavior\<close> is
  \<open>isolated\<close> and that needs a stable name; \<open>C\<close> itself has no bundle behavior.\<close>

definition lazy_isolated_dep :: Dependency where
  "lazy_isolated_dep = mkDep ''d'' Lazy False (Some Isolated) True"

definition lazy_isolated_graph :: AssetGraph where
  "lazy_isolated_graph =
     \<lparr>ag_entries = [mkDep ''e'' Sync True None False],
      ag_assets = [(mkAsset ''E'' ''js'' None 100, [lazy_isolated_dep]),
                   (mkAsset ''C'' ''js'' None 50, [])],
      ag_dependencies = [(mkDep ''e'' Sync True None False, [mkAsset ''E'' ''js'' None 100]),
                         (lazy_isolated_dep, [mkAsset ''C'' ''js'' None 50])]\<rparr>"

text \<open>S3 and S4 of the spec: the entries \<open>E1\<close> and \<open>E2\<close> both import \<open>S\<close> synchronously.\<close>

definition two_entries_graph :: "nat \<Rightarrow> AssetGraph" where
  "two_entries_graph sz =
     \<lparr>ag_entries = [mkDep ''e1'' Sync True None False, mkDep ''e2'' Sync True None False],
      ag_assets = [(mkAsset ''E1'' ''js'' None 100, [mkDep ''d1'' Sync False None False]),
                   (mkAsset ''E2'' ''js'' None 200, [mkDep ''d2'' Sync False None False]),
                   (mkAsset ''S'' ''js'' None sz, [])],
      ag_dependencies = [(mkDep ''e1'' Sync True None False, [mkAsset ''E1'' ''js'' None 100]),
                         (mkDep ''e2'' Sync True None False, [mkAsset ''E2'' ''js'' None 200]),
                         (mkDep ''d1'' Sync False None False, [mkAsset ''S'' ''js'' None sz]),
                         (mkDep ''d2'' Sync False None False, [mkAsset ''S'' ''js'' None sz])]\<rparr>"

definition S3_graph :: AssetGraph where
  "S3_graph = two_entries_graph 40000"

definition S4_graph :: AssetGraph where
  "S4_graph = two_entries_graph 5000"

text \<open>The entry \<open>E1\<close> imports the entry \<open>E2\<close>, which imports the small asset \<open>A\<close>, all
  synchronously.\<close>

definition entry_imports_entry_graph :: AssetGraph where
  "entry_imports_entry_graph =
     \<lparr>ag_entries = [mkDep ''e1'' Sync True None False, mkDep ''e2'' Sync True None False],
      ag_assets = [(mkAsset ''E1'' ''js'' None 100, [mkDep ''d1'' Sync False None False]),
                   (mkAsset ''E2'' ''js'' None 200, [mkDep ''d2'' Sync False None False]),
                   (mkAsset ''A'' ''js'' None 10, [])],
      ag_dependencies = [(mkDep ''e1'' Sync True None False, [mkAsset ''E1'' ''js'' None 100]),
                         (mkDep ''e2'' Sync True None False, [mkAsset ''E2'' ''js'' None 200]),
                         (mkDep ''d1'' Sync False None False, [mkAsset ''E2'' ''js'' None 200]),
                         (mkDep ''d2'' Sync False None False, [mkAsset ''A'' ''js'' None 10])]\<rparr>"

text \<open>As S3, with the entries \<open>b\<close> and \<open>a\<close> in this order.\<close>

definition entries_b_a_graph :: AssetGraph where
  "entries_b_a_graph =
     \<lparr>ag_entries = [mkDep ''e1'' Sync True None False, mkDep ''e2'' Sync True None False],
      ag_assets = [(mkAsset ''b'' ''js'' None 100, [mkDep ''d1'' Sync False None False]),
                   (mkAsset ''a'' ''js'' None 200, [mkDep ''d2'' Sync False None False]),
                   (mkAsset ''s'' ''js'' None 40000, [])],
      ag_dependencies = [(mkDep ''e1'' Sync True None False, [mkAsset ''b'' ''js'' None 100]),
                         (mkDep ''e2'' Sync True None False, [mkAsset ''a'' ''js'' None 200]),
                         (mkDep ''d1'' Sync False None False, [mkAsset ''s'' ''js'' None 40000]),
                         (mkDep ''d2'' Sync False None False, [mkAsset ''s'' ''js'' None 40000])]\<rparr>"

text \<open>An entry with a dependency that resolves to no asset, and one with a dependency that
  resolves to two assets.\<close>

definition unresolved_dep_graph :: AssetGraph where
  "unresolved_dep_graph =
     \<lparr>ag_entries = [mkDep ''e'' Sync True None False],
      ag_assets = [(mkAsset ''E'' ''js'' None 100, [mkDep ''d'' Sync False None False])],
      ag_dependencies = [(mkDep ''e'' Sync True None False, [mkAsset ''E'' ''js'' None 100]),
                         (mkDep ''d'' Sync False None False, [])]\<rparr>"

definition ambiguous_dep_graph :: AssetGraph where
  "ambiguous_dep_graph =
     \<lparr>ag_entries = [mkDep ''e'' Sync True None False],
      ag_assets = [(mkAsset ''E'' ''js'' None 100, [mkDep ''d'' Sync False None False]),
                   (mkAsset ''A'' ''js'' None 10, []), (mkAsset ''B'' ''js'' None 20, [])],
      ag_dependencies = [(mkDep ''e'' Sync True None False, [mkAsset ''E'' ''js'' None 100]),
                         (mkDep ''d'' Sync False None False,
                          [mkAsset ''A'' ''js'' None 10, mkAsset ''B'' ''js'' None 20])]\<rparr>"

text \<open>The entry \<open>E\<close> imports the inline asset \<open>C\<close> lazily and synchronously, and the style
  sheet \<open>T\<close> synchronously.\<close>

definition inline_child_graph :: AssetGraph where
  "inline_child_graph =
     \<lparr>ag_entries = [mkDep ''e'' Sync True None False],
      ag_assets = [(mkAsset ''E'' ''js'' None 100,
                    [mkDep ''d1'' Lazy False None False, mkDep ''d2'' Sync False None False,
                     mkDep ''d3'' Sync False None False]),
                   (mkAsset ''C'' ''js'' (Some Inline) 10, []),
                   (mkAsset ''T'' ''css'' None 20, [])],
      ag_dependencies = [(mkDep ''e'' Sync True None False, [mkAsset ''E'' ''js'' None 100]),
                         (mkDep ''d1'' Lazy False None False, [mkAsset ''C'' ''js'' (Some Inline) 10]),
                         (mkDep ''d2'' Sync False None False, [mkAsset ''C'' ''js'' (Some Inline) 10]),
                         (mkDep ''d3'' Sync False None False, [mkAsset ''T'' ''css'' None 20])]\<rparr>"

text \<open>The entry \<open>E\<close> imports \<open>L1\<close> and \<open>L2\<close> lazily, and both import \<open>S\<close> synchronously.\<close>

definition two_lazy_graph :: AssetGraph where
  "two_lazy_graph =
     \<lparr>ag_entries = [mkDep ''e'' Sync True None False],
      ag_assets = [(mkAsset ''E'' ''js'' None 100,
                    [mkDep ''d1'' Lazy False None False, mkDep ''d2'' Lazy False None False]),
                   (mkAsset ''L1'' ''js'' None 10, [mkDep ''d3'' Sync False None False]),
                   (mkAsset ''L2'' ''js'' None 20, [mkDep ''d4'' Sync False None False]),
                   (mkAsset ''S'' ''js'' None 40000, [])],
      ag_dependencies = [(mkDep ''e'' Sync True None False, [mkAsset ''E'' ''js'' None 100]),
                         (mkDep ''d1'' Lazy False None False, [mkAsset ''L1'' ''js'' None 10]),
                         (mkDep ''d2'' Lazy False None False, [mkAsset ''L2'' ''js'' None 20]),
                         (mkDep ''d3'' Sync False None False, [mkAsset ''S'' ''js'' None 40000]),
                         (mkDep ''d4'' Sync False None False, [mkAsset ''S'' ''js'' None 40000])]\<rparr>"

text \<open>The bundle graph of S3 and S4 after the placement.\<close>

definition rootBundle :: "Asset \<Rightarrow> Bundle" where
  "rootBundle a =
     \<lparr>assets = [a], internalizedAssetIds = [], bundleBehavior = None, needsStableName = True,
      bundle_size = stats_size a, sourceBundles = [], target = ''dist'',
      bundle_env = \<lparr>env_context = ''browser'', env_isIsolated = False\<rparr>, bundle_type = ''js''\<rparr>"

definition two_entries_placed :: "nat \<Rightarrow> Bundle Graph" where
  "two_entries_placed sz =
     \<lparr>nodes = [(0, rootBundle (mkAsset ''E1'' ''js'' None 100)),
               (1, rootBundle (mkAsset ''E2'' ''js'' None 200)),
               (2, \<lparr>assets = [mkAsset ''S'' ''js'' None sz], internalizedAssetIds = [],
                    bundleBehavior = None, needsStableName = False, bundle_size = sz,
                    sourceBundles = [0, 1], target = ''dist'',
                    bundle_env = \<lparr>env_context = ''browser'', env_isIsolated = False\<rparr>,
                    bundle_type = ''js''\<rparr>)],
      edges = [(0, 2), (1, 2)], nextNodeId = 3\<rparr>"

subsection \<open>What the claims speak of\<close>

text \<open>The planner up to the end of the placement (phases 1 to 4).\<close>

definition placement :: "AssetGraph \<Rightarrow> error + Planner" where
  "placement assetGraph =
     bindE (phase1 assetGraph) (\<lambda>p1.
     bindE (phase2 assetGraph p1) (\<lambda>p2.
     bindE (phase3 p2) phase4))"

text \<open>The nodes of the bundles that hold an asset in their \<open>assets\<close>.\<close>

definition bundlesHolding :: "Bundle Graph \<Rightarrow> Asset \<Rightarrow> NodeId list" where
  "bundlesHolding g a = map fst (filter (\<lambda>n. a \<in> set (assets (snd n))) (nodes g))"

text \<open>The sum of \<open>asset.stats.size\<close> over the assets of a bundle.\<close>

definition assetsSize :: "Bundle \<Rightarrow> nat" where
  "assetsSize b = sum_list (map stats_size (assets b))"

text \<open>The key of a shared bundle in the words of the spec: the concatenation of the ids of
  the reachers, sorted.\<close>

definition sortedKey :: "Asset list \<Rightarrow> string" where
  "sortedKey reachable = join_comma (sort (map asset_id reachable))"

subsection \<open>Well-formed bundle graphs\<close>

text \<open>The node ids of a graph are distinct and below the next id to give.\<close>

definition wf_Graph :: "'a Graph \<Rightarrow> bool" where
  "wf_Graph g \<longleftrightarrow>
     distinct (map fst (nodes g)) \<and> list_all (\<lambda>n. fst n < nextNodeId g) (nodes g)"

text \<open>No bundle of the graph has exactly one source bundle.\<close>

definition noSingleSource :: "Bundle Graph \<Rightarrow> bool" where
  "noSingleSource g \<longleftrightarrow> list_all (\<lambda>n. length (sourceBundles (snd n)) \<noteq> 1) (nodes g)"

definition graphInv :: "Bundle Graph \<Rightarrow> bool" where
  "graphInv g \<longleftrightarrow> wf_Graph g \<and> noSingleSource g"

text \<open>What the spec asks of a shared bundle of the final plan.\<close>

definition sharedOk :: "ResolvedBundlerConfig \<Rightarrow> Bundle \<Rightarrow> bool" where
  "sharedOk config b \<longleftrightarrow>
     (sourceBundles b \<noteq> [] \<longrightarrow>
        2 \<le> length (sourceBundles b) \<and> minBundleSize config \<le> bundle_size b)"

text \<open>A property of the nodes that survives the growth of a bundle.\<close>

definition growStable :: "(NodeId \<times> Bundle \<Rightarrow> bool) \<Rightarrow> bool" where
  "growStable Q \<longleftrightarrow>
     (\<forall>n b a. Q (n, b) \<longrightarrow>
        Q (n, b\<lparr>assets := set_add a (assets b), bundle_size := bundle_size b + stats_size a\<rparr>))"

text \<open>What the loop over the nodes leaves: a shared bundle that is still there is not small.\<close>

definition bigEnough :: "ResolvedBundlerConfig \<Rightarrow> Bundle \<Rightarrow> bool" where
  "bigEnough config b \<longleftrightarrow> (sourceBundles b \<noteq> [] \<longrightarrow> minBundleSize config \<le> bundle_size b)"

text \<open>The bundle roots held by the nodes of a list.\<close>

definition childrenOf :: "(Asset option, unit) ContentGraph \<Rightarrow> NodeId list \<Rightarrow> Asset list" where
  "childrenOf g ns = concat (map (\<lambda>n. case cg_getNode g n of Some (Some a) \<Rightarrow> [a] | _ \<Rightarrow> []) ns)"


text \<open>The set \<open>combined\<close> of a round (lines 667-669).\<close>

definition combinedOf :: "Planner \<Rightarrow> nat option \<Rightarrow> Asset list \<Rightarrow> Asset list" where
  "combinedOf p ancestors syncAssetsLoaded =
     (case ancestors of
        Some r \<Rightarrow> setUnion (setStore p r) syncAssetsLoaded
      | None \<Rightarrow> new_Set syncAssetsLoaded)"


text \<open>The state of the planner on \<open>inline_child_graph\<close> after phases 1 and 2 and the first
  part of the round of phase 3 for the entry \<open>E\<close>.\<close>

definition inline_child_grouped :: Planner where
  "inline_child_grouped =
     (case bindE (bindE (phase1 inline_child_graph) (phase2 inline_child_graph))
             (phase3_group (mkAsset ''E'' ''js'' None 100)) of
        Inl e \<Rightarrow> init_Planner
      | Inr r \<Rightarrow> fst r)"

text \<open>The sets of \<open>reachableAsyncRoots\<close> only lose members, and no key is lost.\<close>

definition shrinks :: "(NodeId \<times> Asset list) list \<Rightarrow> (NodeId \<times> Asset list) list \<Rightarrow> bool" where
  "shrinks m m' \<longleftrightarrow>
     (\<forall>k X. map_of m k = Some X \<longrightarrow> (\<exists>X'. map_of m' k = Some X' \<and> set X' \<subseteq> set X))"

text \<open>The state of the planner on S3 after the placement.\<close>

definition S3_placed :: Planner where
  "S3_placed = (case placement S3_graph of Inl e \<Rightarrow> init_Planner | Inr p \<Rightarrow> p)"

subsection \<open>The merge of the small shared bundles\<close>

text \<open>The condition of line 850.\<close>

definition smallShared :: "ResolvedBundlerConfig \<Rightarrow> Bundle \<Rightarrow> bool" where
  "smallShared config b \<longleftrightarrow>
     length (sourceBundles b) > 0 \<and> bundle_size b < minBundleSize config"

text \<open>Every source bundle of a bundle of the graph is a node of the graph, with no source
  bundles of its own.\<close>

definition sourcesAreRoots :: "Bundle Graph \<Rightarrow> bool" where
  "sourcesAreRoots g \<longleftrightarrow>
     list_all (\<lambda>n. list_all (\<lambda>src. case getNode g src of
                                       Some sb \<Rightarrow> sourceBundles sb = []
                                     | None \<Rightarrow> False) (sourceBundles (snd n))) (nodes g)"

text \<open>A bundle after \<open>assets.add(a); size += a.stats.size\<close> for the assets of a list.\<close>

definition growBy :: "Asset list \<Rightarrow> Bundle \<Rightarrow> Bundle" where
  "growBy as b =
     foldl (\<lambda>c a. c\<lparr>assets := set_add a (assets c), bundle_size := bundle_size c + stats_size a\<rparr>)
       b as"

text \<open>What \<open>removeBundle\<close> adds to the bundle of node \<open>m\<close> for a bundle \<open>b\<close>: each asset of
  \<open>b\<close>, once for each time \<open>m\<close> is among the source bundles of \<open>b\<close>.\<close>

definition copies :: "Bundle \<Rightarrow> NodeId \<Rightarrow> Asset list" where
  "copies b m = concat (map (\<lambda>a. replicate (count_list (sourceBundles b) m) a) (assets b))"

text \<open>What the small shared bundles among the nodes \<open>xs\<close> add to the bundle of node \<open>m\<close>.\<close>

definition contributions :: "ResolvedBundlerConfig \<Rightarrow> Bundle Graph \<Rightarrow> NodeId list \<Rightarrow> NodeId \<Rightarrow> Asset list" where
  "contributions config g xs m =
     concat (map (\<lambda>x. case getNode g x of
                         Some b \<Rightarrow> if smallShared config b then copies b m else []
                       | None \<Rightarrow> []) xs)"

text \<open>The size that the small shared bundles of the graph add to the bundle of node \<open>m\<close>.\<close>

definition sizeContribution :: "ResolvedBundlerConfig \<Rightarrow> Bundle Graph \<Rightarrow> NodeId \<Rightarrow> nat" where
  "sizeContribution config g m =
     sum_list (map (\<lambda>n. if smallShared config (snd n)
                         then count_list (sourceBundles (snd n)) m * assetsSize (snd n) else 0)
                 (nodes g))"

section \<open>Properties\<close>

subsection \<open>Evaluation\<close>

lemma bindE_simps [simp]: "bindE (Inl e) f = Inl e" "bindE (Inr x) f = f x"
  by (simp_all add: bindE_def)

lemma bindE_weak_cong: "m = m' \<Longrightarrow> bindE m f = bindE m' f"
  by simp

lemma bindE_Inr_iff: "bindE m f = Inr y \<longleftrightarrow> (\<exists>x. m = Inr x \<and> f x = Inr y)"
  by (cases m) simp_all

lemma mkAsset_simps [simp]:
  "asset_id (mkAsset i t b sz) = i"
  "asset_type (mkAsset i t b sz) = t"
  "asset_env (mkAsset i t b sz) = \<lparr>env_context = ''browser'', env_isIsolated = False\<rparr>"
  "asset_bundleBehavior (mkAsset i t b sz) = b"
  "stats_size (mkAsset i t b sz) = sz"
  "(mkAsset i t b sz = mkAsset i' t' b' sz') = (i = i' \<and> t = t' \<and> b = b' \<and> sz = sz')"
  by (auto simp: mkAsset_def)

lemma mkDep_simps [simp]:
  "dep_id (mkDep i pr en b st) = i"
  "dep_priority (mkDep i pr en b st) = pr"
  "dep_isEntry (mkDep i pr en b st) = en"
  "dep_target (mkDep i pr en b st) = (if en then Some ''dist'' else None)"
  "dep_bundleBehavior (mkDep i pr en b st) = b"
  "dep_needsStableName (mkDep i pr en b st) = st"
  "(mkDep i pr en b st = mkDep i' pr' en' b' st') =
     (i = i' \<and> pr = pr' \<and> en = en' \<and> b = b' \<and> st = st')"
  by (auto simp: mkDep_def)

lemmas planner_defs =
  nullthrows_def invariant_def set_add_def new_Set_def set_delete_def setUnion_def
  setIntersect_def empty_Graph_def addNode_def getNode_def addEdge_def removeEdge_def
  removeNode_def getNodeIdsConnectedFrom_def getNodeIdsConnectedTo_def updateNode_def
  empty_ContentGraph_def cg_addNode_def addNodeByContentKey_def hasContentKey_def
  getNodeIdByContentKey_def cg_getNode_def cg_addEdge_def cg_connectedFrom_def
  cg_connectedTo_def walk_from_def topoSort_def getDependencyAssets_def
  getAssetDependencies_def ag_nodes_def traverse_def traverse_from_def createBundle_def
  init_Planner_def addDependencyBundleEdge_def entries_enter_def createEntryBundle_def
  enter_asset_def asyncSplit_def typeChangeSplit_def enter_dependency_def split_enter_def
  split_exit_def phase1_def reachableAsyncRoots_get_def reachableAsyncRoots_add_def
  reachableAsyncRoots_delete_def reach_enter_def phase2_root_def phase2_def allocSet_def
  assetsConnectedFrom_def scanBundleRoot_def countAsset_def groupCount_def
  groupAvailability_def updateChild_def phase3_group_def phase3_children_def phase3_node_def
  phase3_def
  getReachableBundleRoots_def keepReachable_def internalize_def placeBundleRoot_def
  sharedBundleOf_def addToSharedBundle_def placeShared_def placeAsset_def phase4_def addAssetToBundle_def copyToSourceBundles_def removeBundle_def
  mergeSmallShared_def removeSmallShared_def absorbAssets_def removeSourceBundle_def
  foldSibling_def foldEntry_def dropOrphans_def
  phase5_def export_def createIdealGraph_def placement_def Let_def string_of_nat.simps digit_char_def
  http2_def

lemmas scenario_defs =
  two_entries_graph_def S3_graph_def S4_graph_def entry_imports_entry_graph_def
  entries_b_a_graph_def unresolved_dep_graph_def ambiguous_dep_graph_def
  inline_child_graph_def two_lazy_graph_def lazy_isolated_graph_def lazy_isolated_dep_def
  bundlesHolding_def assetsSize_def

subsection \<open>Invariants of loops and traversals\<close>

lemma forE_invariant:
  assumes "forE xs body s = Inr s'" and "P s"
    and "\<And>x t t'. x \<in> set xs \<Longrightarrow> P t \<Longrightarrow> body x t = Inr t' \<Longrightarrow> P t'"
  shows "P s'"
  using assms
proof (induction xs arbitrary: s)
  case Nil
  then show ?case by simp
next
  case (Cons x xs)
  from Cons.prems(1) obtain t where t: "body x s = Inr t" and r: "forE xs body t = Inr s'"
    by (auto simp: bindE_Inr_iff)
  have "P t" by (rule Cons.prems(3)[of x s t]) (use Cons.prems(2) t in auto)
  then show ?case using Cons.IH[OF r] Cons.prems(3) by auto
qed

lemma walk_invariant:
  assumes "walk U ch en ex vis fs s = Inr s'" and "P s"
    and "\<And>n c t r. P t \<Longrightarrow> en n c t = Inr r \<Longrightarrow> P (fst r)"
    and "\<And>n t t'. P t \<Longrightarrow> ex n t = Inr t' \<Longrightarrow> P t'"
  shows "P s'"
  using assms
proof (induction U ch en ex vis fs s rule: walk.induct)
  case (1 U ch en ex vis s)
  then show ?case by simp
next
  case (2 U ch en ex vis n ctx fs s)
  show ?case
  proof (cases n)
    case None
    with 2 show ?thesis by simp
  next
    case (Some m)
    with "2.prems" obtain t where t: "ex m s = Inr t" and w: "walk U ch en ex vis fs t = Inr s'"
      by (auto split: sum.splits)
    from "2.prems"(4)[OF "2.prems"(2) t] have "P t" .
    from "2.IH"(2)[OF Some t w this "2.prems"(3,4)] show ?thesis .
  qed
next
  case (3 U ch en ex vis n ctx c cs fs s)
  show ?case
  proof (cases "c \<in> set vis \<or> c \<notin> set U")
    case True
    with 3 show ?thesis by simp
  next
    case False
    with "3.prems" obtain r where r: "en c ctx s = Inr r"
      by (auto split: sum.splits)
    from "3.prems"(3)[OF "3.prems"(2) r] have Pr: "P (fst r)" .
    show ?thesis
    proof (cases "fst (snd r)")
      case True
      with False r "3.prems" have "walk U ch en ex (c # vis) ((n, ctx, cs) # fs) (fst r) = Inr s'"
        by simp
      from "3.IH"(2)[OF False r True this Pr "3.prems"(3,4)] show ?thesis .
    next
      case F: False
      with False r "3.prems"
      have "walk U ch en ex (c # vis) ((Some c, snd (snd r), ch c) # (n, ctx, cs) # fs) (fst r) = Inr s'"
        by simp
      from "3.IH"(3)[OF False r F this Pr "3.prems"(3,4)] show ?thesis .
    qed
  qed
qed

lemma walk_from_invariant:
  assumes "walk_from U ch en ex start s = Inr s'" and "P s"
    and "\<And>n c t r. P t \<Longrightarrow> en n c t = Inr r \<Longrightarrow> P (fst r)"
    and "\<And>n t t'. P t \<Longrightarrow> ex n t = Inr t' \<Longrightarrow> P t'"
  shows "P s'"
proof (cases "start \<in> set U")
  case False
  with assms(1,2) show ?thesis by (simp add: walk_from_def)
next
  case True
  with assms(1) obtain r where r: "en start None s = Inr r"
    and w: "(if fst (snd r) then Inr (fst r)
        else walk U ch en ex [start] [(Some start, snd (snd r), ch start)] (fst r)) = Inr s'"
    by (auto simp: walk_from_def bindE_Inr_iff)
  from assms(3)[OF assms(2) r] have Pr: "P (fst r)" .
  show ?thesis
  proof (cases "fst (snd r)")
    case True
    with w Pr show ?thesis by simp
  next
    case False
    with w have "walk U ch en ex [start] [(Some start, snd (snd r), ch start)] (fst r) = Inr s'"
      by simp
    from walk_invariant[of U ch en ex _ _ "fst r" s' P, OF this Pr assms(3,4)] show ?thesis .
  qed
qed

subsection \<open>Graphs\<close>

lemma wf_Graph_empty: "wf_Graph empty_Graph"
  by (simp add: wf_Graph_def empty_Graph_def)

lemma wf_Graph_addNode: "wf_Graph g \<Longrightarrow> wf_Graph (fst (addNode v g))"
  by (auto simp: wf_Graph_def addNode_def list_all_iff)

lemma wf_Graph_addEdge [simp]: "wf_Graph (addEdge f t g) = wf_Graph g"
  by (simp add: wf_Graph_def addEdge_def)

lemma wf_Graph_removeEdge [simp]: "wf_Graph (removeEdge f t g) = wf_Graph g"
  by (simp add: wf_Graph_def removeEdge_def)

lemma map_fst_update_list:
  "map fst (map (\<lambda>p. if fst p = n then (fst p, f (snd p)) else p) xs) = map fst xs"
  by (induction xs) auto

lemma map_of_update_list:
  "map_of (map (\<lambda>p. if fst p = n then (fst p, f (snd p)) else p) xs) m =
     (if m = n then map_option f (map_of xs n) else map_of xs m)"
  by (induction xs) auto

lemma nodes_updateNode_fst: "map fst (nodes (updateNode n f g)) = map fst (nodes g)"
  by (simp add: updateNode_def map_fst_update_list)

lemma wf_Graph_updateNode [simp]: "wf_Graph (updateNode n f g) = wf_Graph g"
proof -
  have "list_all (\<lambda>n. fst n < k) xs = list_all (\<lambda>m. m < k) (map fst xs)" for k and xs :: "(nat \<times> 'a) list"
    by (simp add: list_all_iff)
  then show ?thesis
    by (simp add: wf_Graph_def nodes_updateNode_fst) (simp add: updateNode_def)
qed

lemma wf_Graph_removeNode: "wf_Graph g \<Longrightarrow> wf_Graph (removeNode n g)"
  by (auto simp: wf_Graph_def removeNode_def list_all_iff distinct_map_filter)

lemma getNode_addNode:
  assumes "wf_Graph g"
  shows "getNode (fst (addNode v g)) n = (if n = nextNodeId g then Some v else getNode g n)"
proof -
  have "map_of (nodes g) (nextNodeId g) = None"
  proof (rule ccontr)
    assume "map_of (nodes g) (nextNodeId g) \<noteq> None"
    then obtain y where "map_of (nodes g) (nextNodeId g) = Some y" by auto
    then have "(nextNodeId g, y) \<in> set (nodes g)" by (rule map_of_SomeD)
    with assms show False by (auto simp: wf_Graph_def list_all_iff)
  qed
  then show ?thesis
    by (auto simp: addNode_def getNode_def map_add_def split: option.splits)
qed

lemma getNode_updateNode:
  "getNode (updateNode n f g) m = (if m = n then map_option f (getNode g n) else getNode g m)"
  by (simp add: getNode_def updateNode_def map_of_update_list)

lemma getNode_addEdge [simp]: "getNode (addEdge f t g) n = getNode g n"
  by (simp add: getNode_def addEdge_def)

lemma getNode_removeEdge [simp]: "getNode (removeEdge f t g) n = getNode g n"
  by (simp add: getNode_def removeEdge_def)

lemma getNode_removeNode:
  "getNode (removeNode n g) m = (if m = n then None else getNode g m)"
proof -
  have "map_of (filter (\<lambda>p. fst p \<noteq> n) xs) m = (if m = n then None else map_of xs m)"
    for xs :: "(nat \<times> 'a) list"
    by (induction xs) auto
  then show ?thesis by (simp add: getNode_def removeNode_def)
qed

lemma getNode_in_nodes: "getNode g n = Some b \<Longrightarrow> (n, b) \<in> set (nodes g)"
  by (simp add: getNode_def map_of_SomeD)

lemma in_nodes_getNode: "wf_Graph g \<Longrightarrow> (n, b) \<in> set (nodes g) \<Longrightarrow> getNode g n = Some b"
  by (simp add: getNode_def wf_Graph_def)

text \<open>Properties of every bundle of the graph.\<close>

lemma nodes_addNode: "nodes (fst (addNode v g)) = nodes g @ [(nextNodeId g, v)]"
  by (simp add: addNode_def)

lemma nodes_addEdge [simp]: "nodes (addEdge f t g) = nodes g"
  by (simp add: addEdge_def)

lemma nodes_removeEdge [simp]: "nodes (removeEdge f t g) = nodes g"
  by (simp add: removeEdge_def)

lemma list_all_updateNode:
  "list_all Q (nodes g) \<Longrightarrow> (\<And>b. Q (n, b) \<Longrightarrow> Q (n, f b)) \<Longrightarrow> list_all Q (nodes (updateNode n f g))"
  by (auto simp: updateNode_def list_all_iff)

lemma list_all_removeNode: "list_all Q (nodes g) \<Longrightarrow> list_all Q (nodes (removeNode n g))"
  by (auto simp: removeNode_def list_all_iff)

subsection \<open>The bundle graph through phases 1 and 2\<close>

lemma graphInv_empty: "graphInv empty_Graph"
  by (simp add: graphInv_def wf_Graph_def noSingleSource_def empty_Graph_def)

lemma graphInv_addNode:
  "graphInv g \<Longrightarrow> length (sourceBundles b) \<noteq> 1 \<Longrightarrow> graphInv (fst (addNode b g))"
  by (simp add: graphInv_def wf_Graph_addNode noSingleSource_def nodes_addNode)

lemma graphInv_addEdge [simp]: "graphInv (addEdge f t g) = graphInv g"
  by (simp add: graphInv_def noSingleSource_def)

lemma graphInv_removeEdge [simp]: "graphInv (removeEdge f t g) = graphInv g"
  by (simp add: graphInv_def noSingleSource_def)

lemma graphInv_updateNode:
  "graphInv g \<Longrightarrow> (\<And>b. length (sourceBundles b) \<noteq> 1 \<Longrightarrow> length (sourceBundles (f b)) \<noteq> 1) \<Longrightarrow>
   graphInv (updateNode n f g)"
proof -
  assume a: "graphInv g" and f: "\<And>b. length (sourceBundles b) \<noteq> 1 \<Longrightarrow> length (sourceBundles (f b)) \<noteq> 1"
  from a have "list_all (\<lambda>n. length (sourceBundles (snd n)) \<noteq> 1) (nodes (updateNode n f g))"
    using f by (auto simp: graphInv_def noSingleSource_def list_all_iff updateNode_def)
  with a show ?thesis by (simp add: graphInv_def noSingleSource_def)
qed

lemma graphInv_removeNode: "graphInv g \<Longrightarrow> graphInv (removeNode n g)"
  by (simp add: graphInv_def noSingleSource_def list_all_removeNode wf_Graph_removeNode)

lemma createBundle_sourceBundles: "createBundle opts = Inr b \<Longrightarrow> sourceBundles b = []"
  by (auto simp: createBundle_def bindE_Inr_iff nullthrows_def split: option.splits)

lemma markReachable_bundleGraph [simp]:
  "bundleGraph (markReachable c first fs p) = bundleGraph p"
  by (induction fs arbitrary: first p) (simp_all add: Let_def)

lemma createEntryBundle_graphInv:
  assumes "createEntryBundle e p = Inr p'" and "graphInv (bundleGraph p)"
  shows "graphInv (bundleGraph p')"
proof -
  from assms(1) obtain t bdl where
    b: "createBundle \<lparr>opt_target = t, opt_asset = Some (fst e), opt_env = None, opt_type = None,
          opt_needsStableName = Some (dep_isEntry (snd e)), opt_bundleBehavior = None\<rparr> = Inr bdl"
    and g: "bundleGraph p' = fst (addNode bdl (bundleGraph p))"
    by (auto simp: createEntryBundle_def bindE_Inr_iff Let_def)
  from createBundle_sourceBundles[OF b] assms(2) show ?thesis
    unfolding g by (intro graphInv_addNode) simp_all
qed

lemma asyncSplit_graphInv:
  assumes "asyncSplit d c p = Inr p'" and "graphInv (bundleGraph p)"
  shows "graphInv (bundleGraph p')"
proof (cases "bundles p (asset_id c)")
  case None
  with assms(1) obtain opts bdl where
    b: "createBundle opts = Inr bdl"
    and g: "bundleGraph p' = fst (addNode bdl (bundleGraph p))"
    by (auto simp: asyncSplit_def bindE_Inr_iff Let_def)
  from createBundle_sourceBundles[OF b] assms(2) show ?thesis
    unfolding g by (intro graphInv_addNode) simp_all
next
  case (Some n)
  with assms(1) have "bundleGraph p' = bundleGraph p"
    by (auto simp: asyncSplit_def bindE_Inr_iff Let_def)
  with assms(2) show ?thesis by simp
qed

lemma typeChangeSplit_graphInv:
  assumes "typeChangeSplit d c p = Inr p'" and "graphInv (bundleGraph p)"
  shows "graphInv (bundleGraph p')"
proof -
  from assms(1) obtain opts bdl gid where
    b: "createBundle opts = Inr bdl"
    and g: "bundleGraph p' = addEdge gid (snd (addNode bdl (bundleGraph p)))
              (fst (addNode bdl (bundleGraph p)))"
    by (auto simp: typeChangeSplit_def bindE_Inr_iff Let_def)
  from createBundle_sourceBundles[OF b] assms(2) show ?thesis
    unfolding g by (simp add: graphInv_addNode)
qed

lemma enter_dependency_graphInv:
  assumes "enter_dependency g d ctx p = Inr p'" and "graphInv (bundleGraph p)"
  shows "graphInv (bundleGraph p')"
  using assms
  by (auto simp: enter_dependency_def asyncSplit_graphInv typeChangeSplit_graphInv
      split: option.splits GraphNode.splits list.splits if_splits)

lemma split_enter_graphInv:
  assumes "split_enter g n ctx p = Inr r" and "graphInv (bundleGraph p)"
  shows "graphInv (bundleGraph (fst r))"
  using assms
  by (auto simp: split_enter_def enter_asset_def Let_def bindE_Inr_iff enter_dependency_graphInv
      split: GraphNode.splits option.splits)

lemma split_exit_graphInv:
  assumes "split_exit n p = Inr p'" and "graphInv (bundleGraph p)"
  shows "graphInv (bundleGraph p')"
  using assms
  by (auto simp: split_exit_def split: GraphNode.splits list.splits if_splits)

lemma phase1_graphInv:
  assumes "phase1 g = Inr p"
  shows "graphInv (bundleGraph p)"
proof -
  from assms obtain es p0 where
    e: "forE es createEntryBundle (init_Planner\<lparr>entries := es\<rparr>) = Inr p0"
    and w: "traverse g (split_enter g) split_exit p0 = Inr p"
    by (auto simp: phase1_def bindE_Inr_iff)
  have "graphInv (bundleGraph (init_Planner\<lparr>entries := es\<rparr>))"
    by (simp add: init_Planner_def Let_def graphInv_empty)
  with e have "graphInv (bundleGraph p0)"
    by (rule forE_invariant[where P = "\<lambda>s. graphInv (bundleGraph s)"])
       (rule createEntryBundle_graphInv)
  with w show ?thesis
    unfolding traverse_def
    by (rule walk_invariant[where P = "\<lambda>s. graphInv (bundleGraph s)"])
       (auto intro: split_enter_graphInv split_exit_graphInv)
qed

lemma reach_enter_bundleGraph:
  "reach_enter g root rootId n ctx p = Inr r \<Longrightarrow> bundleGraph (fst r) = bundleGraph p"
  by (auto simp: reach_enter_def bindE_Inr_iff Let_def
      split: GraphNode.splits if_splits list.splits)

lemma phase2_bundleGraph:
  assumes "phase2 g p = Inr p'"
  shows "bundleGraph p' = bundleGraph p"
proof -
  have step: "bundleGraph t' = bundleGraph p"
    if "bundleGraph t = bundleGraph p" "phase2_root g x t = Inr t'" for x t t'
  proof -
    let ?r = "addNodeByContentKey (asset_id x) x (reachableRoots t)"
    from that(2) have w: "walk_from (ag_nodes g) (ag_children g) (reach_enter g x (snd ?r))
        (\<lambda>n s. Inr s) (AssetNode x) (t\<lparr>reachableRoots := fst ?r\<rparr>) = Inr t'"
      by (simp add: phase2_root_def traverse_from_def Let_def)
    show ?thesis
      by (rule walk_from_invariant[OF w, where P = "\<lambda>s. bundleGraph s = bundleGraph p"])
         (use that(1) in \<open>auto dest: reach_enter_bundleGraph\<close>)
  qed
  from assms show ?thesis
    unfolding phase2_def
    by (rule forE_invariant[where P = "\<lambda>s. bundleGraph s = bundleGraph p"]) (auto intro: step)
qed

subsection \<open>The bundle graph through phases 3 and 4\<close>

lemma groupAvailability_bundleGraph:
  "groupAvailability a n s = Inr s' \<Longrightarrow> bundleGraph (fst s') = bundleGraph (fst s)"
  by (auto simp: groupAvailability_def Let_def allocSet_def
      split: option.splits if_splits)

lemma updateChild_bundleGraph:
  "updateChild c n p = Inr p' \<Longrightarrow> bundleGraph p' = bundleGraph p"
  by (auto simp: updateChild_def split: option.splits)

lemma phase3_group_bundleGraph:
  assumes "phase3_group b p = Inr r"
  shows "bundleGraph (fst r) = bundleGraph p"
proof -
  from assms obtain grp a p1 rig s where
    f: "forE grp (groupAvailability a) (p1, rig) = Inr s"
    and p1: "bundleGraph p1 = bundleGraph p"
    and r: "fst r = fst s"
    by (auto simp: phase3_group_def bindE_Inr_iff Let_def allocSet_def)
  have "bundleGraph (fst s) = bundleGraph p"
    by (rule forE_invariant[OF f, where P = "\<lambda>s. bundleGraph (fst s) = bundleGraph p"])
       (auto simp: p1 dest: groupAvailability_bundleGraph)
  with r show ?thesis by simp
qed

lemma phase3_children_bundleGraph:
  assumes "phase3_children n anc sync p = Inr p'"
  shows "bundleGraph p' = bundleGraph p"
  by (rule forE_invariant[OF assms[unfolded phase3_children_def Let_def],
        where P = "\<lambda>s. bundleGraph s = bundleGraph p"])
     (auto simp: allocSet_def dest: updateChild_bundleGraph)

lemma phase3_node_bundleGraph:
  "phase3_node n p = Inr p' \<Longrightarrow> bundleGraph p' = bundleGraph p"
  by (auto simp: phase3_node_def bindE_Inr_iff
      dest!: phase3_group_bundleGraph phase3_children_bundleGraph split: option.splits)

lemma phase3_bundleGraph:
  assumes "phase3 p = Inr p'"
  shows "bundleGraph p' = bundleGraph p"
proof -
  from assms obtain sorted where f: "forE sorted phase3_node p = Inr p'"
    by (auto simp: phase3_def bindE_Inr_iff)
  show ?thesis
    by (rule forE_invariant[OF f, where P = "\<lambda>s. bundleGraph s = bundleGraph p"])
       (auto dest: phase3_node_bundleGraph)
qed

lemma mapE_length: "mapE f xs = Inr ys \<Longrightarrow> length ys = length xs"
  by (induction xs arbitrary: ys) (auto simp: bindE_Inr_iff)

lemma mapE_nth_hd: "mapE f (x # xs) = Inr ys \<Longrightarrow> \<exists>y. f x = Inr y"
  by (auto simp: bindE_Inr_iff)

lemma internalize_graphInv:
  "internalize a r p = Inr p' \<Longrightarrow> graphInv (bundleGraph p) \<Longrightarrow> graphInv (bundleGraph p')"
  by (auto simp: internalize_def bindE_Inr_iff intro!: graphInv_updateNode split: if_splits)

lemma placeBundleRoot_graphInv:
  assumes "placeBundleRoot a rb reachable p = Inr p'" and "graphInv (bundleGraph p)"
  shows "graphInv (bundleGraph p')"
proof -
  let ?p1 = "if bundles p (asset_id a) = None
             then p\<lparr>bundles := (bundles p)(asset_id a \<mapsto> fst rb)\<rparr> else p"
  from assms(1) obtain p2 will where
    f1: "forE reachable
           (\<lambda>reachableAsset q.
              if reachableAsset \<noteq> a then
                bindE (nullthrows (map_of (bundleRoots q) reachableAsset)) (\<lambda>tuple.
                Inr (q\<lparr>bundleGraph := addEdge (snd tuple) (fst rb) (bundleGraph q)\<rparr>))
              else Inr q) ?p1 = Inr p2"
    and f2: "forE will (internalize a) p2 = Inr p'"
    by (auto simp: placeBundleRoot_def bindE_Inr_iff Let_def)
  have "graphInv (bundleGraph ?p1)" using assms(2) by simp
  with f1 have "graphInv (bundleGraph p2)"
    by (rule forE_invariant[where P = "\<lambda>s. graphInv (bundleGraph s)"])
       (auto simp: bindE_Inr_iff split: if_splits)
  with f2 show ?thesis
    by (rule forE_invariant[where P = "\<lambda>s. graphInv (bundleGraph s)"])
       (auto intro: internalize_graphInv)
qed

lemma foldl_addEdge_graphInv:
  "graphInv (foldl (\<lambda>g s. if n \<noteq> s then addEdge s n g else g) g0 xs) = graphInv g0"
  by (induction xs arbitrary: g0) simp_all

lemma addAssetToBundle_graphInv: "graphInv g \<Longrightarrow> graphInv (addAssetToBundle n a g)"
  unfolding addAssetToBundle_def by (rule graphInv_updateNode) simp_all

lemma addToSharedBundle_graphInv:
  "graphInv (bundleGraph p) \<Longrightarrow> graphInv (bundleGraph (addToSharedBundle a sources n p))"
  by (simp add: addToSharedBundle_def foldl_addEdge_graphInv addAssetToBundle_graphInv)

lemma sharedBundleOf_graphInv:
  assumes "sharedBundleOf reachable sources p = Inr r" and "graphInv (bundleGraph p)"
    and "length sources \<noteq> 1"
  shows "graphInv (bundleGraph (fst r))"
proof (cases "bundles p (join_comma (map asset_id reachable))")
  case (Some n)
  with assms(1) have "fst r = p"
    by (auto simp: sharedBundleOf_def bindE_Inr_iff)
  with assms(2) show ?thesis by simp
next
  case None
  with assms(1) obtain opts bdl where
    b: "createBundle opts = Inr bdl"
    and g: "bundleGraph (fst r) = fst (addNode (bdl\<lparr>sourceBundles := sources\<rparr>) (bundleGraph p))"
    by (auto simp: sharedBundleOf_def bindE_Inr_iff Let_def)
  show ?thesis unfolding g using assms(2,3) by (intro graphInv_addNode) simp_all
qed

lemma placeShared_graphInv:
  assumes "placeShared a reachable p = Inr p'" and "graphInv (bundleGraph p)"
    and "reachable \<noteq> []"
  shows "graphInv (bundleGraph p')"
proof -
  let ?key = "join_comma (map asset_id reachable)"
  from assms(1) obtain sources r where
    m: "mapE (\<lambda>a. nullthrows (bundles p (asset_id a))) reachable = Inr sources"
    and s: "sharedBundleOf reachable sources p = Inr r"
    and p': "p' = addToSharedBundle a sources (snd r) (fst r)"
    by (auto simp: placeShared_def bindE_Inr_iff)
  show ?thesis
  proof (cases "length sources = 1")
    case False
    from sharedBundleOf_graphInv[OF s assms(2) False] show ?thesis
      unfolding p' by (rule addToSharedBundle_graphInv)
  next
    case True
    with mapE_length[OF m] obtain x where x: "reachable = [x]"
      by (cases reachable) auto
    with m obtain n where "bundles p ?key = Some n"
      by (auto simp: bindE_Inr_iff nullthrows_def split: option.splits)
    with s have "fst r = p"
      by (auto simp: sharedBundleOf_def bindE_Inr_iff)
    with assms(2) show ?thesis
      unfolding p' by (simp add: addToSharedBundle_graphInv)
  qed
qed

lemma placeAsset_graphInv:
  assumes "placeAsset a p = Inr p'" and "graphInv (bundleGraph p)"
  shows "graphInv (bundleGraph p')"
  using assms
  by (auto simp: placeAsset_def bindE_Inr_iff
      intro: placeBundleRoot_graphInv placeShared_graphInv split: option.splits if_splits)

lemma phase4_graphInv:
  assumes "phase4 p = Inr p'" and "graphInv (bundleGraph p)"
  shows "graphInv (bundleGraph p')"
  by (rule forE_invariant[OF assms(1)[unfolded phase4_def], where P = "\<lambda>s. graphInv (bundleGraph s)"])
     (auto intro: assms(2) placeAsset_graphInv)

lemma placement_graphInv:
  assumes "placement g = Inr p"
  shows "graphInv (bundleGraph p)"
proof -
  from assms obtain p1 p2 p3 where "phase1 g = Inr p1" "phase2 g p1 = Inr p2"
    "phase3 p2 = Inr p3" "phase4 p3 = Inr p"
    by (auto simp: placement_def bindE_Inr_iff)
  then show ?thesis
    using phase1_graphInv phase2_bundleGraph phase3_bundleGraph phase4_graphInv by metis
qed

subsection \<open>The bundle graph through phase 5\<close>

lemma addAssetToBundle_list_all:
  "growStable Q \<Longrightarrow> list_all Q (nodes g) \<Longrightarrow> list_all Q (nodes (addAssetToBundle n a g))"
  unfolding addAssetToBundle_def growStable_def
  by (rule list_all_updateNode) auto

lemma wf_Graph_addAssetToBundle [simp]: "wf_Graph (addAssetToBundle n a g) = wf_Graph g"
  by (simp add: addAssetToBundle_def)

lemma absorbAssets_list_all:
  "growStable Q \<Longrightarrow> list_all Q (nodes g) \<Longrightarrow> list_all Q (nodes (absorbAssets n as g))"
  unfolding absorbAssets_def
  by (induction as arbitrary: g) (simp_all add: addAssetToBundle_list_all)

lemma wf_Graph_absorbAssets [simp]: "wf_Graph (absorbAssets n as g) = wf_Graph g"
  unfolding absorbAssets_def by (induction as arbitrary: g) simp_all

lemma copyToSourceBundles_invariant:
  assumes "copyToSourceBundles bdl g = Inr g1" and "P g"
    and "\<And>n a h. P h \<Longrightarrow> P (addAssetToBundle n a h)"
  shows "P g1"
proof -
  have inner: "P h'"
    if "forE srcs (\<lambda>sourceBundleId h.
                bindE (nullthrows (getNode h sourceBundleId)) (\<lambda>sourceBundle.
                Inr (addAssetToBundle sourceBundleId a h))) h = Inr h'" "P h"
    for srcs a h h'
    by (rule forE_invariant[OF that(1), where P = P])
       (auto simp: that(2) bindE_Inr_iff intro: assms(3))
  show ?thesis
    by (rule forE_invariant[OF assms(1)[unfolded copyToSourceBundles_def], where P = P])
       (auto simp: assms(2) intro: inner)
qed

lemma removeBundle_list_all:
  assumes "removeBundle x g = Inr g'" and "growStable Q" and "list_all Q (nodes g)"
  shows "list_all (\<lambda>n. Q n \<and> fst n \<noteq> x) (nodes g')"
proof -
  from assms(1) obtain bdl g1 where
    f: "copyToSourceBundles bdl g = Inr g1" and g': "g' = removeNode x g1"
    by (auto simp: removeBundle_def bindE_Inr_iff)
  have "list_all Q (nodes g1)"
    by (rule copyToSourceBundles_invariant[OF f, where P = "\<lambda>h. list_all Q (nodes h)"])
       (auto simp: assms(3) intro: addAssetToBundle_list_all[OF assms(2)])
  then show ?thesis
    unfolding g' by (auto simp: removeNode_def list_all_iff)
qed

lemma removeBundle_wf_Graph:
  assumes "removeBundle x g = Inr g'" and "wf_Graph g"
  shows "wf_Graph g'"
proof -
  from assms(1) obtain bdl g1 where
    f: "copyToSourceBundles bdl g = Inr g1" and g': "g' = removeNode x g1"
    by (auto simp: removeBundle_def bindE_Inr_iff)
  have "wf_Graph g1"
    by (rule copyToSourceBundles_invariant[OF f, where P = wf_Graph]) (auto simp: assms(2))
  then show ?thesis unfolding g' by (rule wf_Graph_removeNode)
qed

lemma growStable_bigEnough: "growStable (\<lambda>n. fst n \<in> S \<or> bigEnough config (snd n))"
  by (auto simp: growStable_def bigEnough_def)

lemma growStable_noSingle: "growStable (\<lambda>n. length (sourceBundles (snd n)) \<noteq> 1)"
  by (auto simp: growStable_def)

lemma mergeSmallShared_step:
  assumes "mergeSmallShared config x g = Inr g'" and "wf_Graph g"
    and "list_all (\<lambda>n. fst n \<in> insert x S \<or> bigEnough config (snd n)) (nodes g)"
  shows "wf_Graph g' \<and> list_all (\<lambda>n. fst n \<in> S \<or> bigEnough config (snd n)) (nodes g')"
proof (cases "getNode g x")
  case None
  with assms(1) have g': "g' = g" by (simp add: mergeSmallShared_def)
  from None have "x \<notin> fst ` set (nodes g)"
    by (simp add: getNode_def map_of_eq_None_iff)
  with assms(2,3) show ?thesis unfolding g' by (force simp: list_all_iff)
next
  case (Some bx)
  show ?thesis
  proof (cases "length (sourceBundles bx) > 0 \<and> bundle_size bx < minBundleSize config")
    case True
    with Some assms(1) have r: "removeBundle x g = Inr g'" by (simp add: mergeSmallShared_def)
    from removeBundle_list_all[OF r growStable_bigEnough assms(3)]
    have "list_all (\<lambda>n. fst n \<in> S \<or> bigEnough config (snd n)) (nodes g')"
      by (auto simp: list_all_iff)
    with removeBundle_wf_Graph[OF r assms(2)] show ?thesis by simp
  next
    case False
    with Some assms(1) have g': "g' = g"
      by (auto simp: mergeSmallShared_def split: if_splits)
    have "bigEnough config b" if "(x, b) \<in> set (nodes g)" for b
    proof -
      from in_nodes_getNode[OF assms(2) that] Some have "b = bx" by simp
      with False show ?thesis by (auto simp: bigEnough_def)
    qed
    with assms(2,3) show ?thesis unfolding g' by (force simp: list_all_iff)
  qed
qed

lemma forE_mergeSmallShared:
  assumes "forE xs (mergeSmallShared config) g = Inr g'" and "wf_Graph g"
    and "list_all (\<lambda>n. fst n \<in> set xs \<or> bigEnough config (snd n)) (nodes g)"
  shows "wf_Graph g' \<and> list_all (\<lambda>n. bigEnough config (snd n)) (nodes g')"
  using assms
proof (induction xs arbitrary: g)
  case Nil
  then show ?case by simp
next
  case (Cons x xs)
  from Cons.prems(1) obtain g1 where s: "mergeSmallShared config x g = Inr g1"
    and r: "forE xs (mergeSmallShared config) g1 = Inr g'"
    by (auto simp: bindE_Inr_iff)
  from Cons.prems(3) have "list_all (\<lambda>n. fst n \<in> insert x (set xs) \<or> bigEnough config (snd n)) (nodes g)"
    by simp
  from mergeSmallShared_step[OF s Cons.prems(2) this] Cons.IH[OF r] show ?case by simp
qed

lemma removeSmallShared_bigEnough:
  assumes "removeSmallShared config g = Inr g'" and "wf_Graph g"
  shows "wf_Graph g' \<and> list_all (\<lambda>n. bigEnough config (snd n)) (nodes g')"
proof -
  have "list_all (\<lambda>n. fst n \<in> set (map fst (nodes g)) \<or> bigEnough config (snd n)) (nodes g)"
    by (simp add: list_all_iff)
  from forE_mergeSmallShared[OF assms(1)[unfolded removeSmallShared_def] assms(2) this]
  show ?thesis .
qed

lemma removeSmallShared_noSingleSource:
  assumes "removeSmallShared config g = Inr g'" and "noSingleSource g"
  shows "noSingleSource g'"
proof -
  have step: "noSingleSource h'" if "mergeSmallShared config x h = Inr h'" "noSingleSource h" for x h h'
  proof (cases "h' = h")
    case True
    with that show ?thesis by simp
  next
    case False
    with that(1) have "removeBundle x h = Inr h'"
      by (auto simp: mergeSmallShared_def split: option.splits if_splits)
    from removeBundle_list_all[OF this growStable_noSingle] that(2)
    show ?thesis by (auto simp: noSingleSource_def list_all_iff)
  qed
  show ?thesis
    by (rule forE_invariant[OF assms(1)[unfolded removeSmallShared_def], where P = noSingleSource])
       (auto simp: assms(2) intro: step)
qed

lemma sharedOk_iff: "sharedOk config b \<longleftrightarrow> length (sourceBundles b) \<noteq> 1 \<and> bigEnough config b"
  by (cases "sourceBundles b") (auto simp: sharedOk_def bigEnough_def Suc_le_eq)

lemma removeSmallShared_sharedOk:
  assumes "removeSmallShared config g = Inr g'" and "graphInv g"
  shows "wf_Graph g' \<and> list_all (\<lambda>n. sharedOk config (snd n)) (nodes g')"
  using removeSmallShared_bigEnough[OF assms(1)] removeSmallShared_noSingleSource[OF assms(1)] assms(2)
  by (auto simp: graphInv_def sharedOk_iff noSingleSource_def list_all_iff)

lemma growStable_sharedOk: "growStable (\<lambda>n. sharedOk config (snd n))"
  by (auto simp: growStable_def sharedOk_def)

lemma getNode_addAssetToBundle_sources:
  "getNode g m = Some b \<Longrightarrow>
   \<exists>b'. getNode (addAssetToBundle n a g) m = Some b' \<and> sourceBundles b' = sourceBundles b"
  by (auto simp: addAssetToBundle_def getNode_updateNode)

lemma getNode_absorbAssets_sources:
  "getNode g m = Some b \<Longrightarrow>
   \<exists>b'. getNode (absorbAssets n as g) m = Some b' \<and> sourceBundles b' = sourceBundles b"
proof (induction as arbitrary: g b)
  case Nil
  then show ?case by (simp add: absorbAssets_def)
next
  case (Cons a as)
  from getNode_addAssetToBundle_sources[OF Cons.prems, of n a] obtain b1 where
    "getNode (addAssetToBundle n a g) m = Some b1" "sourceBundles b1 = sourceBundles b" by auto
  with Cons.IH[of "addAssetToBundle n a g" b1] show ?case
    by (auto simp: absorbAssets_def)
qed

lemma removeSourceBundle_sharedOk:
  assumes r: "removeSourceBundle eb s sibling g = Inr g'"
    and wf: "wf_Graph g" and ok: "list_all (\<lambda>n. sharedOk config (snd n)) (nodes g)"
    and b0: "getNode g s = Some b0" "sourceBundles b0 = sourceBundles sibling"
  shows "wf_Graph g' \<and> list_all (\<lambda>n. sharedOk config (snd n)) (nodes g')"
proof (cases "length (sourceBundles sibling) > 1")
  case False
  with r have "g' = g" by (simp add: removeSourceBundle_def)
  with wf ok show ?thesis by simp
next
  case True
  let ?rest = "remove1 eb (sourceBundles sibling)"
  from True r have mem: "eb \<in> set (sourceBundles sibling)"
    by (auto simp: removeSourceBundle_def bindE_Inr_iff invariant_def split: if_splits)
  then have len: "Suc (length ?rest) = length (sourceBundles sibling)"
    by (simp add: length_remove1) (cases "sourceBundles sibling"; simp)
  show ?thesis
  proof (cases "length ?rest = 1")
    case one: True
    let ?g3 = "updateNode s (\<lambda>b. b\<lparr>sourceBundles := []\<rparr>) g"
    from True mem one r have g': "g' = removeEdge (last ?rest) s (absorbAssets (last ?rest) (assets sibling) ?g3)"
      by (auto simp: removeSourceBundle_def bindE_Inr_iff invariant_def Let_def)
    have "list_all (\<lambda>n. sharedOk config (snd n)) (nodes ?g3)"
      using ok by (rule list_all_updateNode) (simp add: sharedOk_def)
    then have "list_all (\<lambda>n. sharedOk config (snd n)) (nodes (absorbAssets (last ?rest) (assets sibling) ?g3))"
      by (rule absorbAssets_list_all[OF growStable_sharedOk])
    with wf show ?thesis unfolding g' by simp
  next
    case many: False
    from True mem many r have g': "g' = updateNode s (\<lambda>b. b\<lparr>sourceBundles := ?rest\<rparr>) g"
      by (auto simp: removeSourceBundle_def bindE_Inr_iff invariant_def Let_def)
    from True len many have two: "2 \<le> length ?rest" by arith
    have "sharedOk config (snd n)" if "n \<in> set (nodes g')" for n
    proof (cases "fst n = s")
      case False
      with that ok show ?thesis
        unfolding g' by (auto simp: updateNode_def list_all_iff split: if_splits)
    next
      case same: True
      from that have "n \<in> (\<lambda>p. if fst p = s then (fst p, (snd p)\<lparr>sourceBundles := ?rest\<rparr>) else p) ` set (nodes g)"
        unfolding g' by (simp add: updateNode_def)
      then obtain m where m: "m \<in> set (nodes g)"
        and nm: "n = (if fst m = s then (fst m, (snd m)\<lparr>sourceBundles := ?rest\<rparr>) else m)"
        by (rule imageE)
      from nm same have ms: "fst m = s" by (auto split: if_splits)
      define b where "b = snd m"
      from m ms have b: "(s, b) \<in> set (nodes g)" by (metis b_def prod.collapse)
      from nm ms have n: "snd n = b\<lparr>sourceBundles := ?rest\<rparr>" by (simp add: b_def)
      from in_nodes_getNode[OF wf b] b0 have "b = b0" by simp
      with b0 True have ne: "sourceBundles b \<noteq> []" by auto
      from b ok have "sharedOk config b" by (auto simp: list_all_iff)
      with ne two show ?thesis unfolding n by (simp add: sharedOk_def)
    qed
    with wf show ?thesis unfolding g' by (simp add: list_all_iff)
  qed
qed

lemma foldSibling_sharedOk:
  assumes f: "foldSibling e eb s p = Inr p'"
    and wf: "wf_Graph (bundleGraph p)"
    and ok: "list_all (\<lambda>n. sharedOk config (snd n)) (nodes (bundleGraph p))"
  shows "wf_Graph (bundleGraph p') \<and> list_all (\<lambda>n. sharedOk config (snd n)) (nodes (bundleGraph p'))"
proof -
  from f obtain sibling where sib: "getNode (bundleGraph p) s = Some sibling"
    by (cases "getNode (bundleGraph p) s") (simp_all add: foldSibling_def nullthrows_def)
  from f sib obtain entryBundle where eb: "getNode (bundleGraph p) eb = Some entryBundle"
    by (cases "getNode (bundleGraph p) eb") (simp_all add: foldSibling_def nullthrows_def)
  from f sib eb have rest: "(if bundle_type sibling \<noteq> bundle_type entryBundle then Inr p
       else bindE (removeSourceBundle eb s sibling
                (removeEdge eb s (absorbAssets eb (assets sibling) (bundleGraph p)))) (\<lambda>g.
       Inr (p\<lparr>bundleGraph := g,
              reachableAsyncRoots := reachableAsyncRoots_delete s e (reachableAsyncRoots p)\<rparr>))) = Inr p'"
    by (simp add: foldSibling_def nullthrows_def)
  show ?thesis
  proof (cases "bundle_type sibling \<noteq> bundle_type entryBundle")
    case True
    with rest wf ok show ?thesis by simp
  next
    case False
    let ?g = "removeEdge eb s (absorbAssets eb (assets sibling) (bundleGraph p))"
    from False rest obtain g' where r: "removeSourceBundle eb s sibling ?g = Inr g'"
      and p': "bundleGraph p' = g'"
      by (auto simp: bindE_Inr_iff)
    from getNode_absorbAssets_sources[OF sib, of eb "assets sibling"] obtain b0 where
      b0: "getNode ?g s = Some b0" "sourceBundles b0 = sourceBundles sibling" by auto
    have "wf_Graph ?g" using wf by simp
    moreover have "list_all (\<lambda>n. sharedOk config (snd n)) (nodes ?g)"
      using absorbAssets_list_all[OF growStable_sharedOk ok] by simp
    ultimately show ?thesis
      unfolding p' using removeSourceBundle_sharedOk[OF r _ _ b0] by blast
  qed
qed

lemma foldEntry_sharedOk:
  assumes f: "foldEntry e p = Inr p'"
    and inv: "wf_Graph (bundleGraph p) \<and> list_all (\<lambda>n. sharedOk config (snd n)) (nodes (bundleGraph p))"
  shows "wf_Graph (bundleGraph p') \<and> list_all (\<lambda>n. sharedOk config (snd n)) (nodes (bundleGraph p'))"
proof -
  from f obtain eb where l: "forE (getNodeIdsConnectedFrom (bundleGraph p) eb) (foldSibling e eb) p = Inr p'"
    by (auto simp: foldEntry_def bindE_Inr_iff)
  show ?thesis
    by (rule forE_invariant[OF l, where P = "\<lambda>q. wf_Graph (bundleGraph q) \<and>
          list_all (\<lambda>n. sharedOk config (snd n)) (nodes (bundleGraph q))"])
       (use inv in \<open>auto dest: foldSibling_sharedOk\<close>)
qed

lemma dropOrphans_list_all: "list_all Q (nodes g) \<Longrightarrow> list_all Q (nodes (dropOrphans m g))"
  unfolding dropOrphans_def
  by (induction m arbitrary: g) (simp_all add: list_all_removeNode)

lemma phase5_sharedOk:
  assumes "phase5 config p = Inr p'" and "graphInv (bundleGraph p)"
  shows "list_all (\<lambda>n. sharedOk config (snd n)) (nodes (bundleGraph p'))"
proof -
  from assms(1) obtain g p1 where
    r: "removeSmallShared config (bundleGraph p) = Inr g"
    and f: "forE (map fst (entries p)) foldEntry (p\<lparr>bundleGraph := g\<rparr>) = Inr p1"
    and p': "bundleGraph p' = dropOrphans (reachableAsyncRoots p1) (bundleGraph p1)"
    by (auto simp: phase5_def bindE_Inr_iff)
  from removeSmallShared_sharedOk[OF r assms(2)]
  have g: "wf_Graph g \<and> list_all (\<lambda>n. sharedOk config (snd n)) (nodes g)" .
  have "wf_Graph (bundleGraph p1) \<and> list_all (\<lambda>n. sharedOk config (snd n)) (nodes (bundleGraph p1))"
    by (rule forE_invariant[OF f, where P = "\<lambda>q. wf_Graph (bundleGraph q) \<and>
          list_all (\<lambda>n. sharedOk config (snd n)) (nodes (bundleGraph q))"])
       (use g in \<open>auto dest: foldEntry_sharedOk\<close>)
  then show ?thesis unfolding p' by (simp add: dropOrphans_list_all)
qed

subsection \<open>Shared bundles of the final plan\<close>

text \<open>
  C2: in the plan that \<open>createIdealGraph\<close> returns, every bundle with a nonempty
  \<open>sourceBundles\<close> has at least two source bundles and a size of at least
  \<open>config.minBundleSize\<close>.
\<close>

theorem C2_shared_bundles_of_the_plan:
  assumes "createIdealGraph assetGraph config = Inr ig"
  shows "list_all (\<lambda>n. sharedOk config (snd n)) (nodes (ig_bundleGraph ig))"
proof -
  from assms obtain p4 p5 where p4: "placement assetGraph = Inr p4"
    and p5: "phase5 config p4 = Inr p5" and ig: "ig = export p5"
    by (auto simp: createIdealGraph_def placement_def bindE_Inr_iff)
  from phase5_sharedOk[OF p5 placement_graphInv[OF p4]] show ?thesis
    unfolding ig by (simp add: export_def)
qed

text \<open>In the plan of \<open>two_lazy_graph\<close>, the bundle of \<open>S\<close> is shared by the bundles of \<open>L1\<close>
  and \<open>L2\<close> and stays in the plan.\<close>

theorem C2_witness_two_lazy:
  "\<exists>ig. createIdealGraph two_lazy_graph http2 = Inr ig \<and>
     list_all (\<lambda>n. sharedOk http2 (snd n)) (nodes (ig_bundleGraph ig)) \<and>
     map (\<lambda>n. (fst n, map asset_id (assets (snd n)), sourceBundles (snd n), bundle_size (snd n)))
       (nodes (ig_bundleGraph ig)) =
     [(0, [''E''], [], 100), (1, [''L1''], [], 10), (2, [''L2''], [], 20),
      (3, [''S''], [1, 2], 40000)]"
proof -
  have e: "(case createIdealGraph two_lazy_graph http2 of
              Inl e \<Rightarrow> None
            | Inr ig \<Rightarrow>
                Some (map (\<lambda>n. (fst n, map asset_id (assets (snd n)), sourceBundles (snd n),
                                 bundle_size (snd n))) (nodes (ig_bundleGraph ig)))) =
           Some [(0, [''E''], [], 100), (1, [''L1''], [], 10), (2, [''L2''], [], 20),
                 (3, [''S''], [1, 2], 40000)]"
    by (simp add: planner_defs scenario_defs cong: bindE_weak_cong split del: if_split)
  then obtain ig where ig: "createIdealGraph two_lazy_graph http2 = Inr ig"
    by (cases "createIdealGraph two_lazy_graph http2") simp_all
  from C2_shared_bundles_of_the_plan[OF ig] e ig show ?thesis by simp
qed

subsection \<open>The bundle of an async dependency\<close>

lemma createBundle_of_asset:
  "createBundle opts = Inr b \<Longrightarrow> opt_asset opts = Some a \<Longrightarrow>
   bundleBehavior b = asset_bundleBehavior a \<and>
   needsStableName b = (opt_needsStableName opts = Some True)"
  by (auto simp: createBundle_def)

text \<open>
  C7 (the bundle of an async split takes \<open>dependency.bundleBehavior ?? childAsset.bundleBehavior\<close>
  as its \<open>bundleBehavior\<close>): the call of \<open>createBundle\<close> passes that value, but \<open>createBundle\<close>
  does not read the option \<open>bundleBehavior\<close> and takes the behavior of the asset. In the
  scenario, the dependency is \<open>isolated\<close> and the bundle created for \<open>C\<close> (node 1) has no
  bundle behavior. Its \<open>needsStableName\<close> is \<open>dependency.isEntry || dependency.needsStableName\<close>,
  as claimed.
\<close>

theorem C7_bundleBehavior_of_dependency_dropped:
  "dep_bundleBehavior lazy_isolated_dep = Some Isolated \<and>
   dep_needsStableName lazy_isolated_dep \<and>
   (case createIdealGraph lazy_isolated_graph http2 of
      Inl e \<Rightarrow> []
    | Inr ig \<Rightarrow> map (\<lambda>n. (fst n, map asset_id (assets (snd n)), bundleBehavior (snd n),
                          needsStableName (snd n))) (nodes (ig_bundleGraph ig)))
   = [(0, [''E''], None, True), (1, [''C''], None, True)]"
  by (simp add: planner_defs lazy_isolated_graph_def lazy_isolated_dep_def
      cong: bindE_weak_cong split del: if_split)

subsection \<open>The update of the children in phase 3\<close>

lemma setIntersect_self [simp]: "setIntersect xs xs = xs"
  by (simp add: setIntersect_def)

lemma setIntersect_idem [simp]: "setIntersect (setIntersect xs ys) ys = setIntersect xs ys"
  by (simp add: setIntersect_def)

lemma updateChild_graph:
  "updateChild c n p = Inr p' \<Longrightarrow> asyncBundleRootGraph p' = asyncBundleRootGraph p"
  by (auto simp: updateChild_def split: option.splits)

lemma updateChild_closed_form:
  assumes "forE ns (updateChild c) p = Inr p'"
  shows "ancestorAssets p' =
           (\<lambda>a. if a \<in> set (childrenOf (asyncBundleRootGraph p) ns) \<and> ancestorAssets p a = None
                then Some c else ancestorAssets p a) \<and>
         setStore p' =
           (\<lambda>r. if r \<noteq> c \<and> (\<exists>a \<in> set (childrenOf (asyncBundleRootGraph p) ns).
                                ancestorAssets p a = Some r)
                then setIntersect (setStore p r) (setStore p c) else setStore p r)"
  using assms
proof (induction ns arbitrary: p)
  case Nil
  then show ?case by (simp add: childrenOf_def)
next
  case (Cons n ns)
  from Cons.prems(1) obtain p1 where s: "updateChild c n p = Inr p1"
    and r: "forE ns (updateChild c) p1 = Inr p'"
    by (auto simp: bindE_Inr_iff)
  from s obtain child where ch: "cg_getNode (asyncBundleRootGraph p) n = Some (Some child)"
    by (auto simp: updateChild_def split: option.splits)
  then have co: "childrenOf (asyncBundleRootGraph p) (n # ns) =
      child # childrenOf (asyncBundleRootGraph p) ns"
    by (simp add: childrenOf_def)
  note g1 = updateChild_graph[OF s]
  note ih = Cons.IH[OF r, unfolded g1]
  show ?case
  proof (cases "ancestorAssets p child")
    case None
    with s ch have "p1 = p\<lparr>ancestorAssets := (ancestorAssets p)(child \<mapsto> c)\<rparr>"
      by (simp add: updateChild_def)
    then have p1: "ancestorAssets p1 = (ancestorAssets p)(child \<mapsto> c)" "setStore p1 = setStore p"
      by simp_all
    have A: "ancestorAssets p' a =
        (if a \<in> set (child # childrenOf (asyncBundleRootGraph p) ns) \<and> ancestorAssets p a = None
         then Some c else ancestorAssets p a)" for a
      using None by (simp add: ih p1)
    have B: "setStore p' r =
        (if r \<noteq> c \<and> (\<exists>a \<in> set (child # childrenOf (asyncBundleRootGraph p) ns).
                                ancestorAssets p a = Some r)
         then setIntersect (setStore p r) (setStore p c) else setStore p r)" for r
    proof (cases "r = c")
      case True
      then show ?thesis by (simp add: ih p1)
    next
      case False
      have "(\<exists>a \<in> set (childrenOf (asyncBundleRootGraph p) ns). ((ancestorAssets p)(child \<mapsto> c)) a = Some r)
          = (\<exists>a \<in> set (child # childrenOf (asyncBundleRootGraph p) ns). ancestorAssets p a = Some r)"
        using None False by (fastforce split: if_splits)
      with False show ?thesis by (simp add: ih p1)
    qed
    show ?thesis
      unfolding co by (intro conjI ext) (rule A, rule B)
  next
    case (Some r)
    with s ch have "p1 = p\<lparr>setStore := (setStore p)(r := setIntersect (setStore p r) (setStore p c))\<rparr>"
      by (simp add: updateChild_def)
    then have p1: "ancestorAssets p1 = ancestorAssets p"
      "setStore p1 = (setStore p)(r := setIntersect (setStore p r) (setStore p c))"
      by simp_all
    have A: "ancestorAssets p' a =
        (if a \<in> set (child # childrenOf (asyncBundleRootGraph p) ns) \<and> ancestorAssets p a = None
         then Some c else ancestorAssets p a)" for a
      using Some by (auto simp: ih p1)
    have B: "setStore p' x =
        (if x \<noteq> c \<and> (\<exists>a \<in> set (child # childrenOf (asyncBundleRootGraph p) ns).
                                ancestorAssets p a = Some x)
         then setIntersect (setStore p x) (setStore p c) else setStore p x)" for x
    proof (cases "x = r")
      case True
      then show ?thesis using Some by (auto simp: ih p1)
    next
      case False
      then have "(\<exists>a \<in> set (child # childrenOf (asyncBundleRootGraph p) ns). ancestorAssets p a = Some x)
          = (\<exists>a \<in> set (childrenOf (asyncBundleRootGraph p) ns). ancestorAssets p a = Some x)"
        using Some by auto
      with False show ?thesis by (simp add: ih p1)
    qed
    show ?thesis
      unfolding co by (intro conjI ext) (rule A, rule B)
  qed
qed

lemma in_childrenOf:
  "n \<in> set ns \<Longrightarrow> cg_getNode g n = Some (Some a) \<Longrightarrow> a \<in> set (childrenOf g ns)"
  by (force simp: childrenOf_def)


text \<open>
  C4, as amended: when a child of the current bundle root in \<open>asyncBundleRootGraph\<close> already has
  a set in \<open>ancestorAssets\<close>, the update intersects that set, in place, with \<open>combined\<close>,
  whatever the number of parents of the child; a child without a set gets the set \<open>combined\<close>
  itself. The statement does not depend on the parents of the child.
\<close>

theorem C4_child_update_is_an_intersection:
  assumes "phase3_children nodeId ancestors syncAssetsLoaded p = Inr p'"
    and "\<forall>a r. ancestorAssets p a = Some r \<longrightarrow> r < nextSetRef p"
    and "childId \<in> set (cg_connectedFrom (asyncBundleRootGraph p) nodeId)"
    and "cg_getNode (asyncBundleRootGraph p) childId = Some (Some child)"
  shows "case ancestorAssets p child of
           Some r \<Rightarrow>
             ancestorAssets p' child = Some r \<and>
             setStore p' r = setIntersect (setStore p r) (combinedOf p ancestors syncAssetsLoaded)
         | None \<Rightarrow>
             ancestorAssets p' child = Some (nextSetRef p) \<and>
             setStore p' (nextSetRef p) = combinedOf p ancestors syncAssetsLoaded"
proof -
  let ?c = "nextSetRef p"
  let ?p0 = "fst (allocSet (combinedOf p ancestors syncAssetsLoaded) p)"
  from assms(1) have f: "forE (cg_connectedFrom (asyncBundleRootGraph ?p0) nodeId)
      (updateChild ?c) ?p0 = Inr p'"
    by (simp add: phase3_children_def combinedOf_def allocSet_def Let_def)
  have p0: "ancestorAssets ?p0 = ancestorAssets p" "asyncBundleRootGraph ?p0 = asyncBundleRootGraph p"
    "setStore ?p0 = (setStore p)(?c := combinedOf p ancestors syncAssetsLoaded)"
    by (simp_all add: allocSet_def)
  from in_childrenOf[OF assms(3,4)]
  have mem: "child \<in> set (childrenOf (asyncBundleRootGraph p) (cg_connectedFrom (asyncBundleRootGraph p) nodeId))" .
  note cf = updateChild_closed_form[OF f, unfolded p0]
  show ?thesis
  proof (cases "ancestorAssets p child")
    case None
    have "\<not> (\<exists>a. ancestorAssets p a = Some ?c)" using assms(2) by auto
    with None mem show ?thesis by (simp add: cf)
  next
    case (Some r)
    with assms(2) have "r \<noteq> ?c" by auto
    with Some mem show ?thesis by (auto simp: cf)
  qed
qed

text \<open>In \<open>inline_child_graph\<close>, the child \<open>C\<close> of the entry \<open>E\<close> has one parent, and the bundle
  group of \<open>E\<close> has given it the set \<open>{T}\<close>; \<open>combined\<close> is empty, and so is the set of \<open>C\<close>
  after the update.\<close>

lemma inline_child_grouped_fields:
  "asyncBundleRootGraph inline_child_grouped =
     \<lparr>cg_nodes = [(0, None), (1, Some (mkAsset ''E'' ''js'' None 100)),
                  (2, Some (mkAsset ''C'' ''js'' (Some Inline) 10))],
      cg_keys = [(''E'', 1), (''C'', 2)], cg_edges = [(0, 1, ()), (1, 2, ())],
      cg_nextNodeId = 3\<rparr>"
  "ancestorAssets inline_child_grouped =
     [mkAsset ''C'' ''js'' (Some Inline) 10 \<mapsto> 0, mkAsset ''T'' ''css'' None 20 \<mapsto> 0]"
  "setStore inline_child_grouped = (\<lambda>r. [])(0 := [mkAsset ''T'' ''css'' None 20])"
  "nextSetRef inline_child_grouped = 1"
proof -
  let ?X = "bindE (bindE (phase1 inline_child_graph) (phase2 inline_child_graph))
             (phase3_group (mkAsset ''E'' ''js'' None 100))"
  have e: "(case ?X of
              Inl e \<Rightarrow> None
            | Inr r \<Rightarrow> Some (asyncBundleRootGraph (fst r), ancestorAssets (fst r), setStore (fst r),
                             nextSetRef (fst r))) =
           Some (\<lparr>cg_nodes = [(0, None), (Suc 0, Some (mkAsset ''E'' ''js'' None 100)),
                              (Suc (Suc 0), Some (mkAsset ''C'' ''js'' (Some Inline) 10))],
                  cg_keys = [(''E'', Suc 0), (''C'', Suc (Suc 0))],
                  cg_edges = [(0, Suc 0, ()), (Suc 0, Suc (Suc 0), ())],
                  cg_nextNodeId = Suc (Suc (Suc 0))\<rparr>,
                 [mkAsset ''C'' ''js'' (Some Inline) 10 \<mapsto> 0, mkAsset ''T'' ''css'' None 20 \<mapsto> 0],
                 (\<lambda>r. [])(0 := [mkAsset ''T'' ''css'' None 20]), Suc 0)"
    by (simp add: planner_defs scenario_defs cong: bindE_weak_cong split del: if_split)
  then obtain r where r: "?X = Inr r" by (cases ?X) simp_all
  from e show
    "asyncBundleRootGraph inline_child_grouped =
     \<lparr>cg_nodes = [(0, None), (1, Some (mkAsset ''E'' ''js'' None 100)),
                  (2, Some (mkAsset ''C'' ''js'' (Some Inline) 10))],
      cg_keys = [(''E'', 1), (''C'', 2)], cg_edges = [(0, 1, ()), (1, 2, ())],
      cg_nextNodeId = 3\<rparr>"
    "ancestorAssets inline_child_grouped =
     [mkAsset ''C'' ''js'' (Some Inline) 10 \<mapsto> 0, mkAsset ''T'' ''css'' None 20 \<mapsto> 0]"
    "setStore inline_child_grouped = (\<lambda>r. [])(0 := [mkAsset ''T'' ''css'' None 20])"
    "nextSetRef inline_child_grouped = 1"
    unfolding inline_child_grouped_def r by (simp_all add: numeral_2_eq_2 numeral_3_eq_3)
qed

theorem C4_witness_inline_child:
  "\<exists>p'. phase3_children 1 None [] inline_child_grouped = Inr p' \<and>
     cg_getNode (asyncBundleRootGraph inline_child_grouped) 2 =
       Some (Some (mkAsset ''C'' ''js'' (Some Inline) 10)) \<and>
     cg_connectedTo (asyncBundleRootGraph inline_child_grouped) 2 = [1] \<and>
     ancestorAssets inline_child_grouped (mkAsset ''C'' ''js'' (Some Inline) 10) = Some 0 \<and>
     setStore inline_child_grouped 0 = [mkAsset ''T'' ''css'' None 20] \<and>
     combinedOf inline_child_grouped None [] = [] \<and>
     ancestorAssets p' (mkAsset ''C'' ''js'' (Some Inline) 10) = Some 0 \<and>
     setStore p' 0 = []"
proof -
  note f = inline_child_grouped_fields
  have "\<exists>p'. phase3_children 1 None [] inline_child_grouped = Inr p'"
    by (simp add: f phase3_children_def allocSet_def cg_connectedFrom_def updateChild_def
        cg_getNode_def new_Set_def)
  then obtain p' where p': "phase3_children 1 None [] inline_child_grouped = Inr p'" ..
  have fresh: "\<forall>a r. ancestorAssets inline_child_grouped a = Some r \<longrightarrow>
      r < nextSetRef inline_child_grouped"
    by (simp add: f)
  have ch: "2 \<in> set (cg_connectedFrom (asyncBundleRootGraph inline_child_grouped) 1)"
    by (simp add: f cg_connectedFrom_def)
  have nd: "cg_getNode (asyncBundleRootGraph inline_child_grouped) 2 =
      Some (Some (mkAsset ''C'' ''js'' (Some Inline) 10))"
    by (simp add: f cg_getNode_def)
  from C4_child_update_is_an_intersection[OF p' fresh ch nd] p' nd show ?thesis
    by (simp add: f cg_connectedTo_def combinedOf_def new_Set_def setIntersect_def)
qed

text \<open>C4 as stated asks for the union when the child has a single parent: here the union of
  \<open>{T}\<close> and \<open>combined\<close> is \<open>{T}\<close>, and the code leaves the empty set.\<close>

theorem C4_single_parent_child_is_intersected:
  "(case bindE (bindE (phase1 inline_child_graph) (phase2 inline_child_graph))
           (phase3_group (mkAsset ''E'' ''js'' None 100)) of
      Inl e \<Rightarrow> None
    | Inr r \<Rightarrow>
        Some (map_option (\<lambda>x. map asset_id (setStore (fst r) x))
                (ancestorAssets (fst r) (mkAsset ''C'' ''js'' (Some Inline) 10)),
              ancestorAssets (fst r) (mkAsset ''E'' ''js'' None 100), snd r,
              cg_getNode (asyncBundleRootGraph (fst r)) 2 = Some (Some (mkAsset ''C'' ''js'' (Some Inline) 10)),
              cg_connectedTo (asyncBundleRootGraph (fst r)) 2,
              cg_connectedFrom (asyncBundleRootGraph (fst r)) 1))
   = Some (Some [''T''], None, [], True, [1], [2]) \<and>
   (case bindE (bindE (phase1 inline_child_graph) (phase2 inline_child_graph)) (phase3_node 1) of
      Inl e \<Rightarrow> None
    | Inr p \<Rightarrow>
        Some (map_option (\<lambda>x. map asset_id (setStore p x))
                (ancestorAssets p (mkAsset ''C'' ''js'' (Some Inline) 10))))
   = Some (Some []) \<and>
   map asset_id (setUnion [mkAsset ''T'' ''css'' None 20] (new_Set [])) = [''T'']"
  by (simp add: planner_defs scenario_defs cong: bindE_weak_cong split del: if_split)

subsection \<open>Dependencies that do not resolve to one asset\<close>

lemma enter_dependency_ambiguous:
  "2 \<le> length (getDependencyAssets g d) \<Longrightarrow>
   enter_dependency g d (Some (AssetNode a)) p = Inl InvariantViolation"
  by (cases "getDependencyAssets g d" rule: list.exhaust[case_names Nil Cons])
     (auto simp: enter_dependency_def split: list.splits)

lemma enter_dependency_unresolved:
  "getDependencyAssets g d = [] \<Longrightarrow> enter_dependency g d (Some (AssetNode a)) p = Inr p"
  by (simp add: enter_dependency_def)

lemma walk_enter_throws:
  "c \<in> set U \<Longrightarrow> c \<notin> set vis \<Longrightarrow> en c ctx s = Inl e \<Longrightarrow>
   walk U ch en ex vis ((n, ctx, c # cs) # fs) s = Inl e"
  by simp






subsection \<open>The size of a bundle\<close>

text \<open>
  C3 (the size of every bundle of the plan is the sum of the sizes of its assets): in
  \<open>entry_imports_entry_graph\<close>, the small shared bundle of \<open>A\<close> is merged into the bundles of
  \<open>E1\<close> and \<open>E2\<close>, and then the bundle of \<open>E1\<close> takes the assets of its sibling, the bundle of
  \<open>E2\<close>: \<open>A\<close> is in the set already, and its size is added again. The plan has one bundle,
  of size 320 with assets of sizes 100, 10 and 200.
\<close>

theorem C3_size_counts_an_asset_twice:
  "(case createIdealGraph entry_imports_entry_graph http2 of
      Inl e \<Rightarrow> []
    | Inr ig \<Rightarrow> map (\<lambda>n. (fst n, map asset_id (assets (snd n)), bundle_size (snd n),
                          assetsSize (snd n))) (nodes (ig_bundleGraph ig)))
   = [(0, [''E1'', ''A'', ''E2''], 320, 310)]"
  by (simp add: planner_defs scenario_defs cong: bindE_weak_cong split del: if_split)

subsection \<open>The siblings folded into an entry bundle\<close>

lemma map_of_map_set: "map_of (map_set m k v) k' = (if k' = k then Some v else map_of m k')"
  by (induction m) auto

lemma map_of_reachableAsyncRoots_delete:
  "map_of (reachableAsyncRoots_delete k a m) k' =
     (if k' = k then Some (set_delete a (reachableAsyncRoots_get m k)) else map_of m k')"
  by (simp add: reachableAsyncRoots_delete_def map_of_map_set)

lemma shrinks_refl [simp]: "shrinks m m"
  by (simp add: shrinks_def)

lemma shrinks_trans: "shrinks m1 m2 \<Longrightarrow> shrinks m2 m3 \<Longrightarrow> shrinks m1 m3"
  unfolding shrinks_def by (meson subset_trans)

lemma shrinks_delete: "shrinks m (reachableAsyncRoots_delete k a m)"
  by (auto simp: shrinks_def map_of_reachableAsyncRoots_delete reachableAsyncRoots_get_def
      set_delete_def)

lemma foldSibling_reachableAsyncRoots:
  assumes "foldSibling e eb s p = Inr p'"
  shows "reachableAsyncRoots p' = reachableAsyncRoots p \<or>
         reachableAsyncRoots p' = reachableAsyncRoots_delete s e (reachableAsyncRoots p)"
  using assms
  by (auto simp: foldSibling_def bindE_Inr_iff split: if_splits)

lemma foldSibling_shrinks:
  "foldSibling e eb s p = Inr p' \<Longrightarrow> shrinks (reachableAsyncRoots p) (reachableAsyncRoots p')"
  using foldSibling_reachableAsyncRoots[of e eb s p p'] by (auto simp: shrinks_delete)

lemma forE_foldSibling_shrinks:
  assumes "forE ss (foldSibling e eb) p = Inr p'"
  shows "shrinks (reachableAsyncRoots p) (reachableAsyncRoots p')"
  by (rule forE_invariant[OF assms,
        where P = "\<lambda>q. shrinks (reachableAsyncRoots p) (reachableAsyncRoots q)"])
     (auto intro: shrinks_trans foldSibling_shrinks)

lemma foldEntry_shrinks:
  "foldEntry e p = Inr p' \<Longrightarrow> shrinks (reachableAsyncRoots p) (reachableAsyncRoots p')"
  by (auto simp: foldEntry_def bindE_Inr_iff dest: forE_foldSibling_shrinks)

lemma forE_foldEntry_shrinks:
  assumes "forE es foldEntry p = Inr p'"
  shows "shrinks (reachableAsyncRoots p) (reachableAsyncRoots p')"
  by (rule forE_invariant[OF assms,
        where P = "\<lambda>q. shrinks (reachableAsyncRoots p) (reachableAsyncRoots q)"])
     (auto intro: shrinks_trans foldEntry_shrinks)

lemma dropOrphans_keeps_None: "getNode g k = None \<Longrightarrow> getNode (dropOrphans m g) k = None"
  unfolding dropOrphans_def
  by (induction m arbitrary: g) (simp_all add: getNode_removeNode)

lemma dropOrphans_removes:
  "(k, []) \<in> set m \<Longrightarrow> getNode (dropOrphans m g) k = None"
proof (induction m arbitrary: g)
  case Nil
  then show ?case by simp
next
  case (Cons x m)
  show ?case
  proof (cases "x = (k, [])")
    case True
    have "getNode (dropOrphans m (removeNode k g)) k = None"
      by (rule dropOrphans_keeps_None) (simp add: getNode_removeNode)
    with True show ?thesis by (simp add: dropOrphans_def)
  next
    case False
    with Cons.prems have "(k, []) \<in> set m" by simp
    from Cons.IH[OF this] show ?thesis by (simp add: dropOrphans_def)
  qed
qed



text \<open>In S3 the shared bundle of \<open>S\<close> (node 2) is no async bundle root and has no entry in
  \<open>reachableAsyncRoots\<close>; the fold of \<open>E1\<close> takes it, and it is dropped.\<close>

lemma S3_placed_fields:
  "placement S3_graph = Inr S3_placed"
  "bundleGraph S3_placed = two_entries_placed 40000"
  "reachableAsyncRoots S3_placed = []"
  "bundleRoots S3_placed =
     [(mkAsset ''E1'' ''js'' None 100, 0, 0), (mkAsset ''E2'' ''js'' None 200, 1, 1)]"
  "entries S3_placed =
     [(mkAsset ''E1'' ''js'' None 100, mkDep ''e1'' Sync True None False),
      (mkAsset ''E2'' ''js'' None 200, mkDep ''e2'' Sync True None False)]"
proof -
  have e: "(case placement S3_graph of
              Inl e \<Rightarrow> None
            | Inr p \<Rightarrow> Some (bundleGraph p, reachableAsyncRoots p, bundleRoots p, entries p)) =
           Some (two_entries_placed 40000, [],
                 [(mkAsset ''E1'' ''js'' None 100, 0, 0), (mkAsset ''E2'' ''js'' None 200, 1, 1)],
                 [(mkAsset ''E1'' ''js'' None 100, mkDep ''e1'' Sync True None False),
                  (mkAsset ''E2'' ''js'' None 200, mkDep ''e2'' Sync True None False)])"
    by (simp add: planner_defs scenario_defs two_entries_placed_def rootBundle_def
        numeral_2_eq_2 numeral_3_eq_3 cong: bindE_weak_cong split del: if_split)
  then obtain p where p: "placement S3_graph = Inr p" by (cases "placement S3_graph") simp_all
  then have q: "S3_placed = p" by (simp add: S3_placed_def)
  from p q show "placement S3_graph = Inr S3_placed" by simp
  from e p q show "bundleGraph S3_placed = two_entries_placed 40000"
    "reachableAsyncRoots S3_placed = []"
    "bundleRoots S3_placed =
     [(mkAsset ''E1'' ''js'' None 100, 0, 0), (mkAsset ''E2'' ''js'' None 200, 1, 1)]"
    "entries S3_placed =
     [(mkAsset ''E1'' ''js'' None 100, mkDep ''e1'' Sync True None False),
      (mkAsset ''E2'' ''js'' None 200, mkDep ''e2'' Sync True None False)]"
    by simp_all
qed

lemmas fold_defs =
  foldSibling_def foldEntry_def removeSourceBundle_def absorbAssets_def addAssetToBundle_def
  updateNode_def removeEdge_def getNode_def getNodeIdsConnectedFrom_def nullthrows_def
  invariant_def set_add_def reachableAsyncRoots_delete_def reachableAsyncRoots_get_def
  set_delete_def Let_def


subsection \<open>The merge of the small shared bundles\<close>

lemma growBy_Nil [simp]: "growBy [] b = b"
  by (simp add: growBy_def)

lemma map_option_growBy_Nil: "map_option (growBy []) x = x"
  by (cases x) simp_all

lemma growBy_append: "growBy (xs @ ys) b = growBy ys (growBy xs b)"
  by (simp add: growBy_def)

lemma growBy_Cons:
  "growBy (a # as) b =
     growBy as (b\<lparr>assets := set_add a (assets b), bundle_size := bundle_size b + stats_size a\<rparr>)"
  by (simp add: growBy_def)

lemma sourceBundles_growBy [simp]: "sourceBundles (growBy as b) = sourceBundles b"
  by (induction as arbitrary: b) (simp_all add: growBy_Cons)

lemma bundle_size_growBy:
  "bundle_size (growBy as b) = bundle_size b + sum_list (map stats_size as)"
  by (induction as arbitrary: b) (simp_all add: growBy_Cons)

lemma set_set_add [simp]: "set (set_add x xs) = insert x (set xs)"
  by (auto simp: set_add_def)

lemma assets_growBy: "set (assets (growBy as b)) = set (assets b) \<union> set as"
  by (induction as arbitrary: b) (auto simp: growBy_Cons)

lemma getNode_addAssetToBundle:
  "getNode (addAssetToBundle n a g) m =
     (if m = n then map_option (growBy [a]) (getNode g n) else getNode g m)"
proof -
  have "growBy [a] = (\<lambda>b. b\<lparr>assets := set_add a (assets b),
                                 bundle_size := bundle_size b + stats_size a\<rparr>)"
    by (rule ext) (simp add: growBy_def)
  then show ?thesis
    by (simp add: addAssetToBundle_def getNode_updateNode)
qed

text \<open>The inner loop of \<open>removeBundle\<close>, for one asset.\<close>

lemma copy_asset:
  assumes "\<forall>src \<in> set srcs. getNode g src \<noteq> None"
  shows "\<exists>g1. forE srcs (\<lambda>sourceBundleId h.
                  bindE (nullthrows (getNode h sourceBundleId)) (\<lambda>sourceBundle.
                  Inr (addAssetToBundle sourceBundleId a h))) g = Inr g1 \<and>
              (\<forall>m. getNode g1 m = map_option (growBy (replicate (count_list srcs m) a)) (getNode g m))"
  using assms
proof (induction srcs arbitrary: g)
  case Nil
  then show ?case by (simp add: option.map_ident)
next
  case (Cons s srcs)
  from Cons.prems obtain sb where sb: "getNode g s = Some sb" by auto
  let ?g = "addAssetToBundle s a g"
  have "\<forall>src \<in> set srcs. getNode ?g src \<noteq> None"
    using Cons.prems by (auto simp: getNode_addAssetToBundle)
  from Cons.IH[OF this] obtain g1 where
    f: "forE srcs (\<lambda>sourceBundleId h.
                  bindE (nullthrows (getNode h sourceBundleId)) (\<lambda>sourceBundle.
                  Inr (addAssetToBundle sourceBundleId a h))) ?g = Inr g1"
    and e: "\<And>m. getNode g1 m = map_option (growBy (replicate (count_list srcs m) a)) (getNode ?g m)"
    by blast
  have "getNode g1 m = map_option (growBy (replicate (count_list (s # srcs) m) a)) (getNode g m)" for m
    by (cases "getNode g m")
       (auto simp: e getNode_addAssetToBundle sb growBy_Cons growBy_def)
  with f sb show ?case by (simp add: nullthrows_def)
qed

lemma copyToSourceBundles_effect:
  assumes "\<forall>src \<in> set (sourceBundles b). getNode g src \<noteq> None"
  shows "\<exists>g1. copyToSourceBundles b g = Inr g1 \<and>
              (\<forall>m. getNode g1 m = map_option (growBy (copies b m)) (getNode g m))"
proof -
  have "\<exists>g1. forE as (\<lambda>asset. forE (sourceBundles b)
          (\<lambda>sourceBundleId h.
             bindE (nullthrows (getNode h sourceBundleId)) (\<lambda>sourceBundle.
             Inr (addAssetToBundle sourceBundleId asset h)))) g = Inr g1 \<and>
        (\<forall>m. getNode g1 m =
           map_option (growBy (concat (map (\<lambda>a. replicate (count_list (sourceBundles b) m) a) as)))
             (getNode g m))"
    if "\<forall>src \<in> set (sourceBundles b). getNode g src \<noteq> None" for as g
    using that
  proof (induction as arbitrary: g)
    case Nil
    then show ?case by (simp add: option.map_ident)
  next
    case (Cons a as)
    from copy_asset[OF Cons.prems, of a] obtain g0 where
      f0: "forE (sourceBundles b) (\<lambda>sourceBundleId h.
                  bindE (nullthrows (getNode h sourceBundleId)) (\<lambda>sourceBundle.
                  Inr (addAssetToBundle sourceBundleId a h))) g = Inr g0"
      and e0: "\<And>m. getNode g0 m =
          map_option (growBy (replicate (count_list (sourceBundles b) m) a)) (getNode g m)"
      by blast
    have "\<forall>src \<in> set (sourceBundles b). getNode g0 src \<noteq> None"
      using Cons.prems by (simp add: e0)
    from Cons.IH[OF this] obtain g1 where
      f1: "forE as (\<lambda>asset. forE (sourceBundles b)
          (\<lambda>sourceBundleId h.
             bindE (nullthrows (getNode h sourceBundleId)) (\<lambda>sourceBundle.
             Inr (addAssetToBundle sourceBundleId asset h)))) g0 = Inr g1"
      and e1: "\<And>m. getNode g1 m =
           map_option (growBy (concat (map (\<lambda>a. replicate (count_list (sourceBundles b) m) a) as)))
             (getNode g0 m)"
      by blast
    have "getNode g1 m =
           map_option (growBy (concat (map (\<lambda>a. replicate (count_list (sourceBundles b) m) a) (a # as))))
             (getNode g m)" for m
      by (cases "getNode g m") (simp_all add: e1 e0 growBy_append)
    with f0 f1 show ?case by simp
  qed
  from this[OF assms, of "assets b"] show ?thesis
    by (simp add: copyToSourceBundles_def copies_def)
qed


text \<open>In terms of \<open>getNode\<close>.\<close>

lemma sourcesAreRoots_getNode:
  assumes "sourcesAreRoots g" and "getNode g n = Some b" and "src \<in> set (sourceBundles b)"
  shows "\<exists>sb. getNode g src = Some sb \<and> sourceBundles sb = []"
proof -
  from assms(2) have "(n, b) \<in> set (nodes g)" by (rule getNode_in_nodes)
  with assms(1,3) have "case getNode g src of Some sb \<Rightarrow> sourceBundles sb = [] | None \<Rightarrow> False"
    by (fastforce simp: sourcesAreRoots_def list_all_iff)
  then show ?thesis by (cases "getNode g src") simp_all
qed

lemma mergeSmallShared_effect:
  assumes roots: "\<forall>n b src. getNode g n = Some b \<longrightarrow> src \<in> set (sourceBundles b) \<longrightarrow>
                    (\<exists>sb. getNode g src = Some sb \<and> sourceBundles sb = [])"
  shows "\<exists>g1. mergeSmallShared config x g = Inr g1 \<and>
           (\<forall>m. getNode g1 m =
              (case getNode g x of
                 Some b \<Rightarrow> if smallShared config b
                           then (if m = x then None else map_option (growBy (copies b m)) (getNode g m))
                           else getNode g m
               | None \<Rightarrow> getNode g m))"
proof (cases "getNode g x")
  case None
  then show ?thesis by (simp add: mergeSmallShared_def)
next
  case (Some b)
  show ?thesis
  proof (cases "smallShared config b")
    case False
    with Some show ?thesis by (auto simp: mergeSmallShared_def smallShared_def)
  next
    case True
    have "\<forall>src \<in> set (sourceBundles b). getNode g src \<noteq> None"
      using roots Some by fastforce
    from copyToSourceBundles_effect[OF this] obtain g1 where
      c: "copyToSourceBundles b g = Inr g1"
      and e: "\<And>m. getNode g1 m = map_option (growBy (copies b m)) (getNode g m)"
      by blast
    have "mergeSmallShared config x g = Inr (removeNode x g1)"
      using Some True c by (simp add: mergeSmallShared_def smallShared_def removeBundle_def nullthrows_def)
    with Some True e show ?thesis by (simp add: getNode_removeNode)
  qed
qed

lemma copies_not_source: "m \<notin> set (sourceBundles b) \<Longrightarrow> growBy (copies b m) = (\<lambda>c. c)"
proof -
  assume "m \<notin> set (sourceBundles b)"
  then have "count_list (sourceBundles b) m = 0" by (simp add: count_list_0_iff)
  then have "copies b m = []" by (simp add: copies_def)
  then show ?thesis by (simp add: fun_eq_iff)
qed

text \<open>The loop of lines 849-853, as a function of the graph it starts from.\<close>

lemma forE_mergeSmallShared_effect:
  assumes "distinct xs"
    and "\<forall>n b src. getNode g n = Some b \<longrightarrow> src \<in> set (sourceBundles b) \<longrightarrow>
                    (\<exists>sb. getNode g src = Some sb \<and> sourceBundles sb = [])"
  shows "\<exists>g'. forE xs (mergeSmallShared config) g = Inr g' \<and>
           (\<forall>m. getNode g' m =
              (if m \<in> set xs \<and> (\<exists>b. getNode g m = Some b \<and> smallShared config b) then None
               else map_option (growBy (contributions config g xs m)) (getNode g m)))"
  using assms
proof (induction xs arbitrary: g)
  case Nil
  then show ?case by (simp add: contributions_def map_option_growBy_Nil)
next
  case (Cons x xs)
  note roots = Cons.prems(2)
  from mergeSmallShared_effect[OF roots] obtain g1 where
    m: "mergeSmallShared config x g = Inr g1"
    and e: "\<And>m. getNode g1 m =
              (case getNode g x of
                 Some b \<Rightarrow> if smallShared config b
                           then (if m = x then None else map_option (growBy (copies b m)) (getNode g m))
                           else getNode g m
               | None \<Rightarrow> getNode g m)"
    by blast
  text \<open>What the step adds to node \<open>m\<close>.\<close>
  define step where "step m = (case getNode g x of
                         Some b \<Rightarrow> if smallShared config b then copies b m else []
                       | None \<Rightarrow> [])" for m
  have removed: "getNode g1 x = None" if "getNode g x = Some b" "smallShared config b" for b
    using that by (simp add: e)
  have kept: "getNode g1 m = map_option (growBy (step m)) (getNode g m)"
    if "m \<noteq> x \<or> \<not> (\<exists>b. getNode g x = Some b \<and> smallShared config b)" for m
    using that by (cases "getNode g x") (auto simp: e step_def map_option_growBy_Nil)
  text \<open>A bundle with source bundles is no source bundle, and is not changed.\<close>
  have shared_same: "getNode g1 m = Some b"
    if "getNode g m = Some b" "sourceBundles b \<noteq> []" "m \<noteq> x" for m b
  proof (cases "getNode g x")
    case None
    with that show ?thesis by (simp add: e)
  next
    case (Some bx)
    have "m \<notin> set (sourceBundles bx)"
    proof
      assume "m \<in> set (sourceBundles bx)"
      with roots Some obtain sb where "getNode g m = Some sb" "sourceBundles sb = []" by blast
      with that show False by simp
    qed
    then have "growBy (copies bx m) = (\<lambda>c. c)" by (rule copies_not_source)
    with Some that show ?thesis by (simp add: e)
  qed
  have small_iff: "(\<exists>b. getNode g1 m = Some b \<and> smallShared config b) \<longleftrightarrow>
                   (\<exists>b. getNode g m = Some b \<and> smallShared config b)" if "m \<noteq> x" for m
  proof (cases "getNode g m")
    case None
    with that show ?thesis by (simp add: kept)
  next
    case (Some b)
    show ?thesis
    proof (cases "sourceBundles b = []")
      case True
      with Some that show ?thesis by (auto simp: kept smallShared_def)
    next
      case False
      from shared_same[OF Some False that] Some show ?thesis by simp
    qed
  qed
  have small_same: "(case getNode g1 y of
                         Some b \<Rightarrow> if smallShared config b then copies b m else []
                       | None \<Rightarrow> []) =
                    (case getNode g y of
                         Some b \<Rightarrow> if smallShared config b then copies b m else []
                       | None \<Rightarrow> [])" if "y \<noteq> x" for y m
  proof (cases "getNode g y")
    case None
    with that show ?thesis by (simp add: kept)
  next
    case (Some b)
    show ?thesis
    proof (cases "sourceBundles b = []")
      case True
      with Some that show ?thesis by (auto simp: kept smallShared_def)
    next
      case False
      from shared_same[OF Some False that] Some show ?thesis by simp
    qed
  qed
  have contrib_same: "contributions config g1 xs m = contributions config g xs m" for m
  proof -
    have "\<forall>y \<in> set xs. y \<noteq> x" using Cons.prems(1) by auto
    then show ?thesis
      unfolding contributions_def
      by (intro arg_cong[where f = concat] map_cong refl small_same) simp
  qed
  have contrib_Cons: "contributions config g (x # xs) m = step m @ contributions config g xs m" for m
    by (simp add: contributions_def step_def)
  have "\<exists>sb. getNode g1 src = Some sb \<and> sourceBundles sb = []"
    if "getNode g1 n = Some b" "src \<in> set (sourceBundles b)" for n b src
  proof -
    have nx: "n \<noteq> x \<or> \<not> (\<exists>b. getNode g x = Some b \<and> smallShared config b)"
      using that(1) removed by auto
    from that(1) kept[OF nx] obtain b0 where b0: "getNode g n = Some b0" "b = growBy (step n) b0"
      by (cases "getNode g n") auto
    with that(2) have "src \<in> set (sourceBundles b0)" by simp
    with roots b0(1) obtain sb where sb: "getNode g src = Some sb" "sourceBundles sb = []"
      by blast
    have "src \<noteq> x \<or> \<not> (\<exists>b. getNode g x = Some b \<and> smallShared config b)"
      using sb by (auto simp: smallShared_def)
    from kept[OF this] sb show ?thesis by simp
  qed
  then have roots1: "\<forall>n b src. getNode g1 n = Some b \<longrightarrow> src \<in> set (sourceBundles b) \<longrightarrow>
                    (\<exists>sb. getNode g1 src = Some sb \<and> sourceBundles sb = [])"
    by blast
  from Cons.prems(1) have "distinct xs" by simp
  from Cons.IH[OF this roots1] obtain g' where
    f: "forE xs (mergeSmallShared config) g1 = Inr g'"
    and e': "\<And>m. getNode g' m =
              (if m \<in> set xs \<and> (\<exists>b. getNode g1 m = Some b \<and> smallShared config b) then None
               else map_option (growBy (contributions config g1 xs m)) (getNode g1 m))"
    by blast
  have "getNode g' m =
              (if m \<in> set (x # xs) \<and> (\<exists>b. getNode g m = Some b \<and> smallShared config b) then None
               else map_option (growBy (contributions config g (x # xs) m)) (getNode g m))" for m
  proof (cases "m = x")
    case True
    then have nx: "x \<notin> set xs" using Cons.prems(1) by simp
    show ?thesis
    proof (cases "\<exists>b. getNode g x = Some b \<and> smallShared config b")
      case True
      then have "getNode g1 x = None" using removed by blast
      with True \<open>m = x\<close> nx show ?thesis by (simp add: e')
    next
      case False
      with \<open>m = x\<close> nx kept[of x] show ?thesis
        by (cases "getNode g x") (simp_all add: e' contrib_same contrib_Cons growBy_append)
    qed
  next
    case False
    from kept[of m] False have k: "getNode g1 m = map_option (growBy (step m)) (getNode g m)" by simp
    show ?thesis
      using False small_iff[OF False]
      by (cases "getNode g m") (simp_all add: e' k contrib_same contrib_Cons growBy_append)
  qed
  with m f show ?case by simp
qed


lemma sum_size_copies:
  "sum_list (map stats_size (copies b m)) = count_list (sourceBundles b) m * assetsSize b"
proof -
  have "sum_list (map stats_size (concat (map (\<lambda>a. replicate k a) as))) =
        k * sum_list (map stats_size as)" for k as
    by (induction as) (simp_all add: sum_list_replicate algebra_simps)
  then show ?thesis by (simp add: copies_def assetsSize_def)
qed

lemma set_copies: "m \<in> set (sourceBundles b) \<Longrightarrow> set (copies b m) = set (assets b)"
proof -
  assume "m \<in> set (sourceBundles b)"
  then have "count_list (sourceBundles b) m \<noteq> 0" by (simp add: count_list_0_iff)
  then show ?thesis by (auto simp: copies_def)
qed

lemma contributions_nodes:
  assumes "wf_Graph g"
  shows "contributions config g (map fst (nodes g)) m =
         concat (map (\<lambda>e. if smallShared config (snd e) then copies (snd e) m else []) (nodes g))"
proof -
  have "(case getNode g (fst e) of
           Some b \<Rightarrow> if smallShared config b then copies b m else []
         | None \<Rightarrow> []) = (if smallShared config (snd e) then copies (snd e) m else [])"
    if "e \<in> set (nodes g)" for e
  proof -
    from that have "(fst e, snd e) \<in> set (nodes g)" by simp
    with assms have "getNode g (fst e) = Some (snd e)" by (rule in_nodes_getNode)
    then show ?thesis by simp
  qed
  then show ?thesis by (simp add: contributions_def comp_def cong: map_cong)
qed

lemma sum_size_contributions:
  assumes "wf_Graph g"
  shows "sum_list (map stats_size (contributions config g (map fst (nodes g)) m)) =
         sizeContribution config g m"
proof -
  have "sum_list (map stats_size
          (concat (map (\<lambda>e. if smallShared config (snd e) then copies (snd e) m else []) es))) =
        sum_list (map (\<lambda>n. if smallShared config (snd n)
                         then count_list (sourceBundles (snd n)) m * assetsSize (snd n) else 0) es)"
    for es
    by (induction es) (simp_all add: sum_size_copies)
  then show ?thesis by (simp add: contributions_nodes[OF assms] sizeContribution_def)
qed

text \<open>
  C6 (phase 5 removes every shared bundle smaller than \<open>minBundleSize\<close> and adds its assets,
  with their sizes, to every source bundle; in S4 the small shared asset ends up in both entry
  bundles and no shared bundle remains): in a well-formed bundle graph whose source bundles
  are nodes with no source bundles of their own, as placement builds them, the loop of lines
  849-853 completes; a bundle with source bundles and a size below \<open>minBundleSize\<close> is no
  node of the graph afterwards, and each of its source bundles keeps its assets, holds every
  asset of the removed bundle, and has grown by the sizes of the assets of the small shared
  bundles it is a source of.
\<close>

theorem C6_small_shared_bundle_is_merged:
  assumes "wf_Graph g" and "sourcesAreRoots g"
    and "getNode g n = Some b" and "smallShared config b"
  shows "\<exists>g'. removeSmallShared config g = Inr g' \<and> getNode g' n = None \<and>
           (\<forall>src \<in> set (sourceBundles b).
              \<exists>sb sb'. getNode g src = Some sb \<and> getNode g' src = Some sb' \<and>
                set (assets b) \<subseteq> set (assets sb') \<and> set (assets sb) \<subseteq> set (assets sb') \<and>
                bundle_size sb' = bundle_size sb + sizeContribution config g src)"
proof -
  let ?xs = "map fst (nodes g)"
  from assms(1) have d: "distinct ?xs" by (simp add: wf_Graph_def)
  have roots: "\<forall>n b src. getNode g n = Some b \<longrightarrow> src \<in> set (sourceBundles b) \<longrightarrow>
                    (\<exists>sb. getNode g src = Some sb \<and> sourceBundles sb = [])"
    using sourcesAreRoots_getNode[OF assms(2)] by blast
  from forE_mergeSmallShared_effect[OF d roots] obtain g' where
    f: "forE ?xs (mergeSmallShared config) g = Inr g'"
    and e: "\<And>m. getNode g' m =
              (if m \<in> set ?xs \<and> (\<exists>b. getNode g m = Some b \<and> smallShared config b) then None
               else map_option (growBy (contributions config g ?xs m)) (getNode g m))"
    by blast
  from assms(3) have "(n, b) \<in> set (nodes g)" by (rule getNode_in_nodes)
  then have n: "n \<in> set ?xs" by force
  with assms(3,4) have gone: "getNode g' n = None" by (simp add: e)
  have "\<exists>sb sb'. getNode g src = Some sb \<and> getNode g' src = Some sb' \<and>
                set (assets b) \<subseteq> set (assets sb') \<and> set (assets sb) \<subseteq> set (assets sb') \<and>
                bundle_size sb' = bundle_size sb + sizeContribution config g src"
    if src: "src \<in> set (sourceBundles b)" for src
  proof -
    from roots assms(3) src obtain sb where sb: "getNode g src = Some sb" "sourceBundles sb = []"
      by blast
    let ?sb' = "growBy (contributions config g ?xs src) sb"
    from sb have "\<not> (\<exists>b. getNode g src = Some b \<and> smallShared config b)"
      by (simp add: smallShared_def)
    then have g': "getNode g' src = Some ?sb'" by (simp add: e sb)
    have "set (copies b src) \<subseteq> set (contributions config g ?xs src)"
    proof
      fix a
      assume "a \<in> set (copies b src)"
      with assms(3,4) have "a \<in> set (case getNode g n of
                         Some b \<Rightarrow> if smallShared config b then copies b src else []
                       | None \<Rightarrow> [])"
        by simp
      with n show "a \<in> set (contributions config g ?xs src)"
        unfolding contributions_def set_concat set_map by blast
    qed
    then have "set (assets b) \<subseteq> set (assets ?sb')"
      by (auto simp: assets_growBy set_copies[OF src])
    moreover have "set (assets sb) \<subseteq> set (assets ?sb')" by (simp add: assets_growBy)
    moreover have "bundle_size ?sb' = bundle_size sb + sizeContribution config g src"
      by (simp add: bundle_size_growBy sum_size_contributions[OF assms(1)])
    ultimately show ?thesis using sb g' by blast
  qed
  with f gone show ?thesis by (auto simp: removeSmallShared_def)
qed

text \<open>In S4 the graph after placement has the shared bundle of \<open>S\<close> (node 2, size 5000) with
  the source bundles 0 and 1; the merge removes it, and the plan has the two entry bundles,
  each with \<open>S\<close>.\<close>

theorem C6_witness_S4:
  "(case placement S4_graph of Inl e \<Rightarrow> None | Inr p \<Rightarrow> Some (bundleGraph p)) =
     Some (two_entries_placed 5000) \<and>
   wf_Graph (two_entries_placed 5000) \<and> sourcesAreRoots (two_entries_placed 5000) \<and>
   map_option (\<lambda>b. (sourceBundles b, smallShared http2 b)) (getNode (two_entries_placed 5000) 2) =
     Some ([0, 1], True) \<and>
   (\<exists>g'. removeSmallShared http2 (two_entries_placed 5000) = Inr g' \<and> getNode g' 2 = None \<and>
      (\<exists>sb'. getNode g' 0 = Some sb' \<and> mkAsset ''S'' ''js'' None 5000 \<in> set (assets sb') \<and>
             bundle_size sb' = 5100) \<and>
      (\<exists>sb'. getNode g' 1 = Some sb' \<and> mkAsset ''S'' ''js'' None 5000 \<in> set (assets sb') \<and>
             bundle_size sb' = 5200)) \<and>
   (case createIdealGraph S4_graph http2 of
      Inl e \<Rightarrow> []
    | Inr ig \<Rightarrow> map (\<lambda>n. (fst n, map asset_id (assets (snd n)), bundle_size (snd n),
                          sourceBundles (snd n))) (nodes (ig_bundleGraph ig)))
   = [(0, [''E1'', ''S''], 5100, []), (1, [''E2'', ''S''], 5200, [])]"
proof -
  let ?g = "two_entries_placed 5000"
  let ?S = "\<lparr>assets = [mkAsset ''S'' ''js'' None 5000], internalizedAssetIds = [],
             bundleBehavior = None, needsStableName = False, bundle_size = 5000,
             sourceBundles = [0, 1], target = ''dist'',
             bundle_env = \<lparr>env_context = ''browser'', env_isIsolated = False\<rparr>,
             bundle_type = ''js''\<rparr>"
  have placed: "(case placement S4_graph of Inl e \<Rightarrow> None | Inr p \<Rightarrow> Some (bundleGraph p)) =
     Some ?g"
    by (simp add: planner_defs scenario_defs two_entries_placed_def rootBundle_def
        numeral_2_eq_2 numeral_3_eq_3 cong: bindE_weak_cong split del: if_split)
  have plan: "(case createIdealGraph S4_graph http2 of
      Inl e \<Rightarrow> []
    | Inr ig \<Rightarrow> map (\<lambda>n. (fst n, map asset_id (assets (snd n)), bundle_size (snd n),
                          sourceBundles (snd n))) (nodes (ig_bundleGraph ig)))
   = [(0, [''E1'', ''S''], 5100, []), (1, [''E2'', ''S''], 5200, [])]"
    by (simp add: planner_defs scenario_defs cong: bindE_weak_cong split del: if_split)
  have wf: "wf_Graph ?g" by (simp add: wf_Graph_def two_entries_placed_def)
  have roots: "sourcesAreRoots ?g"
    by (simp add: sourcesAreRoots_def two_entries_placed_def rootBundle_def getNode_def)
  have s: "getNode ?g 2 = Some ?S" by (simp add: two_entries_placed_def getNode_def)
  have small: "smallShared http2 ?S" by (simp add: smallShared_def http2_def)
  have e1: "getNode ?g 0 = Some (rootBundle (mkAsset ''E1'' ''js'' None 100))"
    and e2: "getNode ?g 1 = Some (rootBundle (mkAsset ''E2'' ''js'' None 200))"
    by (simp_all add: two_entries_placed_def getNode_def)
  have c: "sizeContribution http2 ?g 0 = 5000" "sizeContribution http2 ?g 1 = 5000"
    by (simp_all add: sizeContribution_def two_entries_placed_def rootBundle_def smallShared_def
        http2_def assetsSize_def)
  from C6_small_shared_bundle_is_merged[OF wf roots s small] obtain g' where
    r: "removeSmallShared http2 ?g = Inr g'" and gone: "getNode g' 2 = None"
    and src: "\<forall>src \<in> set (sourceBundles ?S).
              \<exists>sb sb'. getNode ?g src = Some sb \<and> getNode g' src = Some sb' \<and>
                set (assets ?S) \<subseteq> set (assets sb') \<and> set (assets sb) \<subseteq> set (assets sb') \<and>
                bundle_size sb' = bundle_size sb + sizeContribution http2 ?g src"
    by blast
  have m: "0 \<in> set (sourceBundles ?S)" "1 \<in> set (sourceBundles ?S)" by simp_all
  from bspec[OF src m(1)] obtain sb0 where
    "getNode g' 0 = Some sb0" "set (assets ?S) \<subseteq> set (assets sb0)"
    "bundle_size sb0 = bundle_size (rootBundle (mkAsset ''E1'' ''js'' None 100)) +
       sizeContribution http2 ?g 0"
    unfolding e1 by auto
  then have b0: "\<exists>sb'. getNode g' 0 = Some sb' \<and>
      mkAsset ''S'' ''js'' None 5000 \<in> set (assets sb') \<and> bundle_size sb' = 5100"
    using c by (simp add: rootBundle_def)
  from bspec[OF src m(2)] obtain sb1 where
    "getNode g' 1 = Some sb1" "set (assets ?S) \<subseteq> set (assets sb1)"
    "bundle_size sb1 = bundle_size (rootBundle (mkAsset ''E2'' ''js'' None 200)) +
       sizeContribution http2 ?g 1"
    unfolding e2 by auto
  then have b1: "\<exists>sb'. getNode g' 1 = Some sb' \<and>
      mkAsset ''S'' ''js'' None 5000 \<in> set (assets sb') \<and> bundle_size sb' = 5200"
    using c by (simp add: rootBundle_def)
  have merged: "\<exists>g'. removeSmallShared http2 ?g = Inr g' \<and> getNode g' 2 = None \<and>
      (\<exists>sb'. getNode g' 0 = Some sb' \<and> mkAsset ''S'' ''js'' None 5000 \<in> set (assets sb') \<and>
             bundle_size sb' = 5100) \<and>
      (\<exists>sb'. getNode g' 1 = Some sb' \<and> mkAsset ''S'' ''js'' None 5000 \<in> set (assets sb') \<and>
             bundle_size sb' = 5200)"
    using r gone b0 b1 by blast
  have node: "map_option (\<lambda>b. (sourceBundles b, smallShared http2 b)) (getNode ?g 2) =
     Some ([0, 1], True)"
    using small by (simp add: s)
  from placed plan wf roots node merged show ?thesis by blast
qed

end
